theory Spec2Isabelle
  imports Complex_Main "HOL-Library.AList" "HOL-Library.Char_ord" "HOL-Library.List_Lexorder"
begin

section \<open>Values, exceptions and the observable world\<close>

text \<open>
  The client of \<^verbatim>\<open>exercism.py\<close> talks to a JSON API. JSON documents and the
  Python objects passed as keyword arguments are values of one datatype. A dictionary is
  an association list with distinct keys in insertion order, as a Python \<^verbatim>\<open>dict\<close>
  is; \<^verbatim>\<open>d[k] = v\<close> is \<^const>\<open>AList.update\<close>, which replaces the value in place
  when the key is present and appends the pair otherwise. JSON numbers are integers here
  (page counters are the only numbers the code reads).
\<close>

datatype pyval =
    PNone
  | PBool bool
  | PInt int
  | PStr string
  | PList "pyval list"
  | PDict "(string \<times> pyval) list"

type_synonym dict = "(string \<times> pyval) list"

text \<open>
  Every exception the modelled code can raise is a value. \<open>HTTPError\<close> and
  \<open>ConnectionError\<close> are the classes of \<^verbatim>\<open>requests\<close>; \<open>ClientResponseError\<close> and
  \<open>ClientConnectionError\<close> are the classes \<^verbatim>\<open>aiohttp\<close> raises for the same two
  situations; \<open>RetryError\<close> is what \<^verbatim>\<open>tenacity\<close> raises when it gives up (it wraps the
  exception of the last attempt, since the decorators do not set \<^verbatim>\<open>reraise\<close>);
  \<open>CallbackError\<close> stands for whatever a caller-supplied callback raises.
\<close>

datatype exn =
    HTTPError nat
  | ConnectionError
  | ClientResponseError nat
  | ClientConnectionError
  | JSONDecodeError
  | KeyError string
  | TypeError
  | ValueError
  | AssertionError
  | CallbackError
  | RetryError exn

text \<open>
  A response is reduced to what the code reads of it: the \<^verbatim>\<open>retry-after\<close> header
  (absent, or present with some text), the status code, and the body (\<open>None\<close> when it is
  not a JSON document). The header text is classified by what \<^verbatim>\<open>int()\<close> makes of it.
\<close>

datatype header_value =
    IntText int
  | OtherText

record response =
  retry_after :: "header_value option"
  status_code :: nat
  body :: "pyval option"

datatype outcome =
    Refused
  | Reply response

text \<open>
  A request is the callable that is invoked (a bound method of the HTTP session) together
  with the positional and the keyword arguments it is invoked with.
\<close>

datatype callable = SessionGet | SessionPost | SessionPatch

record request =
  func :: callable
  args :: "pyval list"
  kwargs :: dict

text \<open>
  The world is the trace of what the client did, oldest event first: \<open>Call\<close> is a request
  handed to the transport, \<open>Sleep\<close> a sleep written in a method of the client
  (\<^verbatim>\<open>time.sleep\<close> or \<^verbatim>\<open>asyncio.sleep\<close>), \<open>Attempt n\<close> the start of the \<open>n\<close>-th attempt
  of a retrying call and \<open>Backoff\<close> the sleep the retry decorator itself performs between
  two attempts, \<open>Dispatch\<close> an invocation of the notification callback. The server is any
  function of the number of requests it has received so far and of the request.
\<close>

datatype event =
    Attempt nat
  | Call request
  | Sleep real
  | Backoff real
  | Dispatch pyval

type_synonym world = "event list"

type_synonym server = "nat \<Rightarrow> request \<Rightarrow> outcome"

fun calls_of :: "world \<Rightarrow> request list" where
  "calls_of [] = []"
| "calls_of (Call r # w) = r # calls_of w"
| "calls_of (_ # w) = calls_of w"

fun sleeps_of :: "world \<Rightarrow> real list" where
  "sleeps_of [] = []"
| "sleeps_of (Sleep d # w) = d # sleeps_of w"
| "sleeps_of (_ # w) = sleeps_of w"

fun attempts_of :: "world \<Rightarrow> nat list" where
  "attempts_of [] = []"
| "attempts_of (Attempt n # w) = n # attempts_of w"
| "attempts_of (_ # w) = attempts_of w"

fun backoffs_of :: "world \<Rightarrow> real list" where
  "backoffs_of [] = []"
| "backoffs_of (Backoff d # w) = d # backoffs_of w"
| "backoffs_of (_ # w) = backoffs_of w"

definition API :: string where
  "API = ''https://exercism.org/api/v2''"

section \<open>The rate-limited request layer (blocking)\<close>

text \<open>
  \<^verbatim>\<open>int(resp.headers["retry-after"])\<close> raises \<^verbatim>\<open>ValueError\<close> on a text that is not an
  integer. \<^verbatim>\<open>time.sleep\<close> raises \<^verbatim>\<open>ValueError\<close> on a negative duration.
\<close>

definition py_int :: "header_value \<Rightarrow> exn + int" where
  "py_int h = (case h of IntText d \<Rightarrow> Inr d | OtherText \<Rightarrow> Inl ValueError)"

definition time_sleep :: "real \<Rightarrow> world \<Rightarrow> (exn + unit) \<times> world" where
  "time_sleep d w = (if d < 0 then (Inl ValueError, w) else (Inr (), w @ [Sleep d]))"

text \<open>
  Truth of a value, as \<^verbatim>\<open>if\<close> and \<^verbatim>\<open>not\<close> take it.
\<close>

definition truthy :: "pyval \<Rightarrow> bool" where
  "truthy v =
     (case v of
        PNone \<Rightarrow> False
      | PBool b \<Rightarrow> b
      | PInt i \<Rightarrow> i \<noteq> 0
      | PStr s \<Rightarrow> s \<noteq> []
      | PList xs \<Rightarrow> xs \<noteq> []
      | PDict d \<Rightarrow> d \<noteq> [])"

text \<open>
  The session methods of \<^verbatim>\<open>requests\<close>: \<^verbatim>\<open>get(url, **kwargs)\<close>,
  \<^verbatim>\<open>post(url, data=None, json=None, **kwargs)\<close> and \<^verbatim>\<open>patch(url, data=None, **kwargs)\<close>.
  Each hands its keyword arguments on to
  \<^verbatim>\<open>Session.request(method, url, params=None, data=None, headers=None, cookies=None, files=None, auth=None, timeout=None, allow_redirects=True, proxies=None, hooks=None, stream=None, verify=None, cert=None, json=None)\<close>.
  Python binds the positional arguments to the first parameters of the method and each
  keyword argument to the parameter of its name. A call with more positional arguments
  than the method has parameters, with a keyword that names no parameter or a parameter
  already bound, or with no \<^verbatim>\<open>url\<close>, is a \<^verbatim>\<open>TypeError\<close> of Python and reaches no
  server.

  The library then encodes \<^verbatim>\<open>params\<close>. A dictionary is encoded whatever its values are
  (a value that is no string goes through \<^verbatim>\<open>str()\<close>, a \<open>None\<close> is left out); the
  elements of a list are unpacked as pairs, which raises \<^verbatim>\<open>TypeError\<close> for an element
  that cannot be iterated and \<^verbatim>\<open>ValueError\<close> for one that has not two components. This
  too happens before anything is sent. What the library makes of the values of the other
  keyword arguments is not modelled: they are handed to the server as they are.

  A connection-level failure raises \<^verbatim>\<open>ConnectionError\<close>. \<^verbatim>\<open>raise_for_status\<close> raises
  \<^verbatim>\<open>HTTPError\<close> for the codes 400 to 599.
\<close>

definition positional_names :: "callable \<Rightarrow> string list" where
  "positional_names f =
     (case f of
        SessionGet \<Rightarrow> [''url'']
      | SessionPost \<Rightarrow> [''url'', ''data'', ''json'']
      | SessionPatch \<Rightarrow> [''url'', ''data''])"

definition request_keywords :: "string list" where
  "request_keywords =
     [''params'', ''data'', ''headers'', ''cookies'', ''files'', ''auth'', ''timeout'',
      ''allow_redirects'', ''proxies'', ''hooks'', ''stream'', ''verify'', ''cert'', ''json'']"

definition binds :: "string list \<Rightarrow> string list \<Rightarrow> pyval list \<Rightarrow> dict \<Rightarrow> bool" where
  "binds positional keywords as kw =
     (length as \<le> length positional
      \<and> list_all (\<lambda>k. k \<in> set (positional @ keywords)
                        \<and> k \<notin> set (take (length as) positional)) (map fst kw)
      \<and> (as \<noteq> [] \<or> ''url'' \<in> set (map fst kw)))"

definition unpack_pair :: "pyval \<Rightarrow> exn + pyval \<times> pyval" where
  "unpack_pair p =
     (case p of
        PList [k, v] \<Rightarrow> Inr (k, v)
      | PList _ \<Rightarrow> Inl ValueError
      | PStr [a, b] \<Rightarrow> Inr (PStr [a], PStr [b])
      | PStr _ \<Rightarrow> Inl ValueError
      | PDict [a, b] \<Rightarrow> Inr (PStr (fst a), PStr (fst b))
      | PDict _ \<Rightarrow> Inl ValueError
      | _ \<Rightarrow> Inl TypeError)"

fun first_error :: "('a \<Rightarrow> exn option) \<Rightarrow> 'a list \<Rightarrow> exn option" where
  "first_error chk [] = None"
| "first_error chk (x # xs) = (case chk x of Some e \<Rightarrow> Some e | None \<Rightarrow> first_error chk xs)"

definition encode_params :: "pyval \<Rightarrow> exn option" where
  "encode_params v =
     (case v of
        PList ps \<Rightarrow>
          first_error (\<lambda>p. case unpack_pair p of Inl e \<Rightarrow> Some e | Inr _ \<Rightarrow> None) ps
      | _ \<Rightarrow> None)"

definition call_error :: "callable \<Rightarrow> pyval list \<Rightarrow> dict \<Rightarrow> exn option" where
  "call_error f as kw =
     (if \<not> binds (positional_names f) request_keywords as kw then Some TypeError
      else (case map_of kw ''params'' of None \<Rightarrow> None | Some v \<Rightarrow> encode_params v))"

definition session_call ::
  "server \<Rightarrow> callable \<Rightarrow> pyval list \<Rightarrow> dict \<Rightarrow> world \<Rightarrow> (exn + response) \<times> world" where
  "session_call srv f as kw w =
     (case call_error f as kw of
        Some e \<Rightarrow> (Inl e, w)
      | None \<Rightarrow>
          (case srv (length (calls_of w)) \<lparr>func = f, args = as, kwargs = kw\<rparr> of
             Refused \<Rightarrow> (Inl ConnectionError, w @ [Call \<lparr>func = f, args = as, kwargs = kw\<rparr>])
           | Reply resp \<Rightarrow> (Inr resp, w @ [Call \<lparr>func = f, args = as, kwargs = kw\<rparr>])))"

definition raise_for_status :: "response \<Rightarrow> exn + unit" where
  "raise_for_status resp =
     (if 400 \<le> status_code resp \<and> status_code resp < 600
      then Inl (HTTPError (status_code resp)) else Inr ())"

text \<open>
  The tail of \<^verbatim>\<open>Exercism.request\<close>, after the (possibly reissued) call:
  \<^verbatim>\<open>resp.raise_for_status(); time.sleep(sleep); return resp\<close>.
\<close>

definition request_tail :: "response \<Rightarrow> real \<Rightarrow> world \<Rightarrow> (exn + response) \<times> world" where
  "request_tail resp sleep w =
     (case raise_for_status resp of
        Inl e \<Rightarrow> (Inl e, w)
      | Inr _ \<Rightarrow>
          (case time_sleep sleep w of
             (Inl e, w') \<Rightarrow> (Inl e, w')
           | (Inr _, w') \<Rightarrow> (Inr resp, w')))"

text \<open>
  \<^verbatim>\<open>Exercism.request(self, func, *args, sleep=0.5, **kwargs)\<close>: the call, and when the
  response has a \<^verbatim>\<open>retry-after\<close> header, a sleep of \<open>delay + 1\<close> seconds and the same call
  again.
\<close>

definition request ::
  "server \<Rightarrow> callable \<Rightarrow> pyval list \<Rightarrow> real \<Rightarrow> dict \<Rightarrow> world \<Rightarrow> (exn + response) \<times> world" where
  "request srv f as sleep kw w =
     (case session_call srv f as kw w of
        (Inl e, w1) \<Rightarrow> (Inl e, w1)
      | (Inr resp, w1) \<Rightarrow>
          (case retry_after resp of
             None \<Rightarrow> request_tail resp sleep w1
           | Some h \<Rightarrow>
               (case py_int h of
                  Inl e \<Rightarrow> (Inl e, w1)
                | Inr delay \<Rightarrow>
                    (case time_sleep (real_of_int (delay + 1)) w1 of
                       (Inl e, w2) \<Rightarrow> (Inl e, w2)
                     | (Inr _, w2) \<Rightarrow>
                         (case session_call srv f as kw w2 of
                            (Inl e, w3) \<Rightarrow> (Inl e, w3)
                          | (Inr resp2, w3) \<Rightarrow> request_tail resp2 sleep w3)))))"

section \<open>The retry decorator\<close>

text \<open>
  Both \<^verbatim>\<open>get_json_with_retries\<close> methods are decorated with
  \<^verbatim>\<open>tenacity.retry(stop=stop_after_attempt(3), wait=wait_exponential(multiplier=2, min=15, max=60),
  retry=retry_if_exception_type((requests.HTTPError, requests.exceptions.ConnectionError)))\<close>.
  The three policies are those of the library:
  \<^item> \<^verbatim>\<open>retry_if_exception_type\<close> holds when the attempt raised an instance of one of the
    listed classes;
  \<^item> \<^verbatim>\<open>stop_after_attempt(n)\<close> holds when \<^verbatim>\<open>attempt_number >= n\<close>;
  \<^item> \<^verbatim>\<open>wait_exponential\<close> returns
    \<^verbatim>\<open>max(max(0, min), min(multiplier * 2 ** (attempt_number - 1), max))\<close>.
  Attempts are numbered from 1. An attempt that returns ends the loop with its result; an
  exception that is not to be retried is raised as it is; when the stop policy holds the
  library raises \<^verbatim>\<open>RetryError\<close>; otherwise it sleeps for the wait and attempts again.
\<close>

definition retry_if_exception_type :: "exn \<Rightarrow> bool" where
  "retry_if_exception_type e =
     (case e of HTTPError _ \<Rightarrow> True | ConnectionError \<Rightarrow> True | _ \<Rightarrow> False)"

definition stop_after_attempt :: "nat \<Rightarrow> nat \<Rightarrow> bool" where
  "stop_after_attempt max_attempt_number attempt_number =
     (attempt_number \<ge> max_attempt_number)"

definition wait_exponential :: "real \<Rightarrow> real \<Rightarrow> real \<Rightarrow> nat \<Rightarrow> real" where
  "wait_exponential multiplier mn mx attempt_number =
     max (max 0 mn) (min (multiplier * 2 ^ (attempt_number - 1)) mx)"

function retrying ::
  "(world \<Rightarrow> (exn + 'a) \<times> world) \<Rightarrow> nat \<Rightarrow> world \<Rightarrow> (exn + 'a) \<times> world" where
  "retrying fn attempt_number w =
     (case fn (w @ [Attempt attempt_number]) of
        (Inr result, w1) \<Rightarrow> (Inr result, w1)
      | (Inl e, w1) \<Rightarrow>
          (if \<not> retry_if_exception_type e then (Inl e, w1)
           else if stop_after_attempt 3 attempt_number then (Inl (RetryError e), w1)
           else retrying fn (attempt_number + 1)
                  (w1 @ [Backoff (wait_exponential 2 15 60 attempt_number)])))"
  by pat_completeness auto
termination
  by (relation "measure (\<lambda>(fn, n, w). 3 - n)") (auto simp: stop_after_attempt_def)

declare retrying.simps [simp del]

section \<open>The retrying JSON fetch (blocking)\<close>

definition resp_json :: "response \<Rightarrow> exn + pyval" where
  "resp_json resp = (case body resp of None \<Rightarrow> Inl JSONDecodeError | Some j \<Rightarrow> Inr j)"

text \<open>
  The body of \<^verbatim>\<open>Exercism.get_json_with_retries(self, *args, sleep=0.2, **kwargs)\<close>:
  \<^verbatim>\<open>resp = self.request(self.session.get, *args, sleep=sleep, **kwargs); return resp.json()\<close>,
  and the decorated method.
\<close>

definition get_json_attempt ::
  "server \<Rightarrow> pyval list \<Rightarrow> real \<Rightarrow> dict \<Rightarrow> world \<Rightarrow> (exn + pyval) \<times> world" where
  "get_json_attempt srv as sleep kw w =
     (case request srv SessionGet as sleep kw w of
        (Inl e, w1) \<Rightarrow> (Inl e, w1)
      | (Inr resp, w1) \<Rightarrow> (resp_json resp, w1))"

definition get_json_with_retries ::
  "server \<Rightarrow> pyval list \<Rightarrow> real \<Rightarrow> dict \<Rightarrow> world \<Rightarrow> (exn + pyval) \<times> world" where
  "get_json_with_retries srv as sleep kw w = retrying (get_json_attempt srv as sleep kw) 1 w"

section \<open>The retrying JSON fetch (cooperative)\<close>

text \<open>
  \<^verbatim>\<open>aiohttp\<close>'s \<^verbatim>\<open>ClientSession.get(url, *, allow_redirects=True, **kwargs)\<close> takes
  one positional argument and hands its keyword arguments on to \<^verbatim>\<open>_request\<close>, whose
  keyword parameters are listed below; the binding of the arguments is Python's, as above.
  The library then builds the query from \<^verbatim>\<open>params\<close>, when that is a true value, with
  \<^verbatim>\<open>yarl\<close>: a string is taken as it is; in a dictionary a value is a string or an
  integer (a Boolean is not an integer here), or a list of such; a list is a list of
  pairs of a string and a string or an integer; anything else (a Boolean or \<open>None\<close> as a
  value, among others) is a \<^verbatim>\<open>TypeError\<close>, raised before anything is sent. What the
  library makes of the values of the other keyword arguments is not modelled.

  A connection-level failure raises a \<^verbatim>\<open>ClientConnectionError\<close>, \<^verbatim>\<open>raise_for_status\<close>
  raises \<^verbatim>\<open>ClientResponseError\<close> for every code from 400. \<^verbatim>\<open>asyncio.sleep\<close> suspends
  for the duration, and not at all for a duration that is not positive.
\<close>

definition aio_keywords :: "string list" where
  "aio_keywords =
     [''params'', ''data'', ''json'', ''cookies'', ''headers'', ''skip_auto_headers'', ''auth'',
      ''allow_redirects'', ''max_redirects'', ''compress'', ''chunked'', ''expect100'',
      ''raise_for_status'', ''read_until_eof'', ''proxy'', ''proxy_auth'', ''timeout'',
      ''verify_ssl'', ''fingerprint'', ''ssl_context'', ''ssl'', ''server_hostname'',
      ''proxy_headers'', ''trace_request_ctx'', ''read_bufsize'', ''auto_decompress'',
      ''max_line_size'', ''max_field_size'']"

definition query_var :: "pyval \<Rightarrow> bool" where
  "query_var v = (case v of PStr _ \<Rightarrow> True | PInt _ \<Rightarrow> True | _ \<Rightarrow> False)"

definition query_value :: "pyval \<Rightarrow> bool" where
  "query_value v = (case v of PList xs \<Rightarrow> list_all query_var xs | _ \<Rightarrow> query_var v)"

definition build_query :: "pyval \<Rightarrow> exn option" where
  "build_query v =
     (if \<not> truthy v then None
      else
        (case v of
           PStr _ \<Rightarrow> None
         | PDict d \<Rightarrow> if list_all (\<lambda>p. query_value (snd p)) d then None else Some TypeError
         | PList ps \<Rightarrow>
             first_error
               (\<lambda>p. case unpack_pair p of
                       Inl e \<Rightarrow> Some e
                     | Inr (PStr _, x) \<Rightarrow> if query_var x then None else Some TypeError
                     | Inr _ \<Rightarrow> Some TypeError) ps
         | _ \<Rightarrow> Some TypeError))"

definition aio_call_error :: "pyval list \<Rightarrow> dict \<Rightarrow> exn option" where
  "aio_call_error as kw =
     (if \<not> binds [''url''] aio_keywords as kw then Some TypeError
      else (case map_of kw ''params'' of None \<Rightarrow> None | Some v \<Rightarrow> build_query v))"

definition aio_session_get ::
  "server \<Rightarrow> pyval list \<Rightarrow> dict \<Rightarrow> world \<Rightarrow> (exn + response) \<times> world" where
  "aio_session_get srv as kw w =
     (case aio_call_error as kw of
        Some e \<Rightarrow> (Inl e, w)
      | None \<Rightarrow>
          (case srv (length (calls_of w)) \<lparr>func = SessionGet, args = as, kwargs = kw\<rparr> of
             Refused \<Rightarrow>
               (Inl ClientConnectionError, w @ [Call \<lparr>func = SessionGet, args = as, kwargs = kw\<rparr>])
           | Reply resp \<Rightarrow>
               (Inr resp, w @ [Call \<lparr>func = SessionGet, args = as, kwargs = kw\<rparr>])))"

definition aio_raise_for_status :: "response \<Rightarrow> exn + unit" where
  "aio_raise_for_status resp =
     (if 400 \<le> status_code resp then Inl (ClientResponseError (status_code resp)) else Inr ())"

definition asyncio_sleep :: "real \<Rightarrow> world \<Rightarrow> world" where
  "asyncio_sleep d w = w @ [Sleep (max 0 d)]"

text \<open>
  The three statements both branches of the cooperative method end with:
  \<^verbatim>\<open>resp.raise_for_status(); await asyncio.sleep(sleep); return await resp.json()\<close>.
\<close>

definition aio_tail :: "response \<Rightarrow> real \<Rightarrow> world \<Rightarrow> (exn + pyval) \<times> world" where
  "aio_tail resp sleep w =
     (case aio_raise_for_status resp of
        Inl e \<Rightarrow> (Inl e, w)
      | Inr _ \<Rightarrow> (resp_json resp, asyncio_sleep sleep w))"

text \<open>
  The body of \<^verbatim>\<open>AsyncExercism.get_json_with_retries(self, *args, endpoint, session, sleep=0.2, **kwargs)\<close>.
  The first call is \<^verbatim>\<open>session.get(f"{self.API}/{endpoint}", *args, **kwargs)\<close>; after a
  \<^verbatim>\<open>retry-after\<close> header the second call is \<^verbatim>\<open>session.get(*args, **kwargs)\<close>, as the
  source has it. \<open>hdrs\<close> is \<^verbatim>\<open>self.headers\<close>.
\<close>

definition aio_get_json_attempt ::
  "server \<Rightarrow> pyval \<Rightarrow> pyval list \<Rightarrow> string \<Rightarrow> real \<Rightarrow> dict \<Rightarrow> world \<Rightarrow> (exn + pyval) \<times> world" where
  "aio_get_json_attempt srv hdrs as endpoint sleep kw w =
     (let kw' = (if ''headers'' \<in> set (map fst kw) then kw else kw @ [(''headers'', hdrs)]) in
      case aio_session_get srv (PStr (API @ ''/'' @ endpoint) # as) kw' w of
        (Inl e, w1) \<Rightarrow> (Inl e, w1)
      | (Inr resp, w1) \<Rightarrow>
          (case retry_after resp of
             None \<Rightarrow> aio_tail resp sleep w1
           | Some h \<Rightarrow>
               (case py_int h of
                  Inl e \<Rightarrow> (Inl e, w1)
                | Inr delay \<Rightarrow>
                    (case aio_session_get srv as kw' (asyncio_sleep (real_of_int (delay + 1)) w1) of
                       (Inl e, w3) \<Rightarrow> (Inl e, w3)
                     | (Inr resp2, w3) \<Rightarrow> aio_tail resp2 sleep w3))))"

definition aio_get_json_with_retries ::
  "server \<Rightarrow> pyval \<Rightarrow> pyval list \<Rightarrow> string \<Rightarrow> real \<Rightarrow> dict \<Rightarrow> world \<Rightarrow> (exn + pyval) \<times> world" where
  "aio_get_json_with_retries srv hdrs as endpoint sleep kw w =
     retrying (aio_get_json_attempt srv hdrs as endpoint sleep kw) 1 w"

section \<open>Pagination\<close>

text \<open>
  \<^verbatim>\<open>v[k]\<close> for a string key: a dictionary without the key raises \<^verbatim>\<open>KeyError\<close>, and any
  other value raises \<^verbatim>\<open>TypeError\<close> (a list or a string wants an integer index, the rest
  is not subscriptable). Iteration, as \<^verbatim>\<open>list.extend\<close> and \<^verbatim>\<open>for\<close> do it: over the
  elements of a list, the keys of a dictionary, the characters of a string.
\<close>

definition getitem :: "pyval \<Rightarrow> string \<Rightarrow> exn + pyval" where
  "getitem v k =
     (case v of
        PDict d \<Rightarrow> (case map_of d k of None \<Rightarrow> Inl (KeyError k) | Some x \<Rightarrow> Inr x)
      | _ \<Rightarrow> Inl TypeError)"

definition py_iter :: "pyval \<Rightarrow> exn + pyval list" where
  "py_iter v =
     (case v of
        PList xs \<Rightarrow> Inr xs
      | PDict d \<Rightarrow> Inr (map (\<lambda>p. PStr (fst p)) d)
      | PStr s \<Rightarrow> Inr (map (\<lambda>c. PStr [c]) s)
      | _ \<Rightarrow> Inl TypeError)"

text \<open>
  \<^verbatim>\<open>a >= b\<close>: numbers compare by value (a Boolean is the integer 0 or 1), strings
  lexicographically; other pairs raise \<^verbatim>\<open>TypeError\<close>. (Python also orders two lists;
  the code compares page counters only and that case is left out.)
\<close>

definition as_number :: "pyval \<Rightarrow> int option" where
  "as_number v =
     (case v of PInt i \<Rightarrow> Some i | PBool b \<Rightarrow> Some (if b then 1 else 0) | _ \<Rightarrow> None)"

definition py_ge :: "pyval \<Rightarrow> pyval \<Rightarrow> exn + bool" where
  "py_ge a b =
     (case (as_number a, as_number b) of
        (Some x, Some y) \<Rightarrow> Inr (x \<ge> y)
      | _ \<Rightarrow> (case (a, b) of (PStr s, PStr t) \<Rightarrow> Inr (s \<ge> t) | _ \<Rightarrow> Inl TypeError))"

text \<open>\<^verbatim>\<open>str(page)\<close> for the page counter, which starts at 1 and only grows.\<close>

definition digit :: "nat \<Rightarrow> char" where
  "digit n = ''0123456789'' ! n"

fun str_nat :: "nat \<Rightarrow> string" where
  "str_nat n = (if n < 10 then [digit n] else str_nat (n div 10) @ [digit (n mod 10)])"

declare str_nat.simps [simp del]

text \<open>
  \<^verbatim>\<open>all_data.extend(response["results"])\<close> and the test that ends the loop,
  \<^verbatim>\<open>response["meta"]["current_page"] >= response["meta"]["total_pages"]\<close>.
\<close>

definition extend_results :: "pyval list \<Rightarrow> pyval \<Rightarrow> exn + pyval list" where
  "extend_results all_data response =
     (case getitem response ''results'' of
        Inl e \<Rightarrow> Inl e
      | Inr results \<Rightarrow>
          (case py_iter results of Inl e \<Rightarrow> Inl e | Inr xs \<Rightarrow> Inr (all_data @ xs)))"

definition last_page :: "pyval \<Rightarrow> exn + bool" where
  "last_page response =
     (case getitem response ''meta'' of
        Inl e \<Rightarrow> Inl e
      | Inr m \<Rightarrow>
          (case getitem m ''current_page'' of
             Inl e \<Rightarrow> Inl e
           | Inr cp \<Rightarrow>
               (case getitem m ''total_pages'' of
                  Inl e \<Rightarrow> Inl e
                | Inr tp \<Rightarrow> py_ge cp tp)))"

text \<open>
  The loop of both \<^verbatim>\<open>get_all_pages\<close> methods, \<^verbatim>\<open>for page in itertools.count(start=1)\<close>.
  The two methods differ in the fetch they call and in nothing else, so the fetch is a
  parameter. The loop has no bound of its own: it is a partial function, and \<open>None\<close> is
  the run that never ends. \<open>params\<close> is the dictionary the loop writes the page number
  into; its state at the end is returned with the result.
\<close>

partial_function (option) pages_loop ::
  "(dict \<Rightarrow> world \<Rightarrow> (exn + pyval) \<times> world) \<Rightarrow> nat \<Rightarrow> dict \<Rightarrow> pyval list \<Rightarrow> world
     \<Rightarrow> ((exn + pyval list) \<times> dict \<times> world) option" where
  "pages_loop fetch page params all_data w =
     (case fetch (AList.update ''page'' (PStr (str_nat page)) params) w of
        (Inl e, w1) \<Rightarrow> Some (Inl e, AList.update ''page'' (PStr (str_nat page)) params, w1)
      | (Inr response, w1) \<Rightarrow>
          (case extend_results all_data response of
             Inl e \<Rightarrow> Some (Inl e, AList.update ''page'' (PStr (str_nat page)) params, w1)
           | Inr all_data' \<Rightarrow>
               (case last_page response of
                  Inl e \<Rightarrow> Some (Inl e, AList.update ''page'' (PStr (str_nat page)) params, w1)
                | Inr stop \<Rightarrow>
                    if stop
                    then Some (Inr all_data', AList.update ''page'' (PStr (str_nat page)) params, w1)
                    else pages_loop fetch (page + 1)
                           (AList.update ''page'' (PStr (str_nat page)) params) all_data' w1)))"

text \<open>
  \<^verbatim>\<open>Exercism.get_all_pages(self, *args, endpoint, **kwargs)\<close>. \<open>params\<close> is the keyword
  argument of that name when the caller passed one (\<^verbatim>\<open>kwargs.pop("params", {})\<close>), and
  \<open>sleep\<close> the keyword argument \<^verbatim>\<open>sleep\<close> when the caller passed one (it reaches
  \<^verbatim>\<open>get_json_with_retries\<close>, whose default is 0.2); \<open>kw\<close> are the other keyword arguments.
  \<open>page_fetch\<close> is the call in the loop,
  \<^verbatim>\<open>self.get_json_with_retries(url, *args, params=params, **kwargs)\<close>.
  Writing the page into something that is not a dictionary raises \<^verbatim>\<open>TypeError\<close>. The
  second component of the result is the object \<open>params\<close> as the call leaves it.
\<close>

definition page_fetch ::
  "server \<Rightarrow> pyval list \<Rightarrow> string \<Rightarrow> real option \<Rightarrow> dict \<Rightarrow> dict \<Rightarrow> world
     \<Rightarrow> (exn + pyval) \<times> world" where
  "page_fetch srv as endpoint sleep kw params w =
     get_json_with_retries srv (PStr (API @ ''/'' @ endpoint) # as)
       (case sleep of None \<Rightarrow> 0.2 | Some s \<Rightarrow> s) ((''params'', PDict params) # kw) w"

definition get_all_pages ::
  "server \<Rightarrow> pyval list \<Rightarrow> string \<Rightarrow> pyval option \<Rightarrow> real option \<Rightarrow> dict \<Rightarrow> world
     \<Rightarrow> ((exn + pyval list) \<times> pyval \<times> world) option" where
  "get_all_pages srv as endpoint params sleep kw w =
     (case (case params of None \<Rightarrow> PDict [] | Some p \<Rightarrow> p) of
        PDict d \<Rightarrow>
          (case pages_loop (page_fetch srv as endpoint sleep kw) 1 d [] w of
             None \<Rightarrow> None
           | Some (r, d', w') \<Rightarrow> Some (r, PDict d', w'))
      | p \<Rightarrow> Some (Inl TypeError, p, w))"

text \<open>
  \<^verbatim>\<open>AsyncExercism.get_all_pages(self, *args, endpoint, **kwargs)\<close>: the same loop around
  the cooperative fetch, inside one client session. \<open>aio_page_fetch\<close> is the call in the
  loop, \<^verbatim>\<open>self.get_json_with_retries(*args, params=params, endpoint=endpoint, session=session, **kwargs)\<close>.
\<close>

definition aio_page_fetch ::
  "server \<Rightarrow> pyval \<Rightarrow> pyval list \<Rightarrow> string \<Rightarrow> real option \<Rightarrow> dict \<Rightarrow> dict \<Rightarrow> world
     \<Rightarrow> (exn + pyval) \<times> world" where
  "aio_page_fetch srv hdrs as endpoint sleep kw params w =
     aio_get_json_with_retries srv hdrs as endpoint
       (case sleep of None \<Rightarrow> 0.2 | Some s \<Rightarrow> s) ((''params'', PDict params) # kw) w"

definition aio_get_all_pages ::
  "server \<Rightarrow> pyval \<Rightarrow> pyval list \<Rightarrow> string \<Rightarrow> pyval option \<Rightarrow> real option \<Rightarrow> dict \<Rightarrow> world
     \<Rightarrow> ((exn + pyval list) \<times> pyval \<times> world) option" where
  "aio_get_all_pages srv hdrs as endpoint params sleep kw w =
     (case (case params of None \<Rightarrow> PDict [] | Some p \<Rightarrow> p) of
        PDict d \<Rightarrow>
          (case pages_loop (aio_page_fetch srv hdrs as endpoint sleep kw) 1 d [] w of
             None \<Rightarrow> None
           | Some (r, d', w') \<Rightarrow> Some (r, PDict d', w'))
      | p \<Rightarrow> Some (Inl TypeError, p, w))"

text \<open>
  The JSON document of one page, with the three entries the loop reads, and the page a
  request asks for (the entry \<^verbatim>\<open>page\<close> of its \<^verbatim>\<open>params\<close> keyword argument).
\<close>

definition page_envelope :: "pyval list \<Rightarrow> int \<Rightarrow> int \<Rightarrow> pyval" where
  "page_envelope results cp tp =
     PDict [(''results'', PList results),
            (''meta'', PDict [(''current_page'', PInt cp), (''total_pages'', PInt tp)])]"

definition requested_page :: "request \<Rightarrow> pyval option" where
  "requested_page r =
     (case map_of (kwargs r) ''params'' of
        Some (PDict ps) \<Rightarrow> map_of ps ''page''
      | _ \<Rightarrow> None)"

text \<open>
  The progress of the loop: \<open>pages_reach fetch c c'\<close> holds when the loop, started in the
  state \<open>c\<close> (page number, parameters, accumulated records, world), arrives at the head
  of an iteration in the state \<open>c'\<close>, every page before having been fetched and added.
\<close>

inductive pages_reach ::
  "(dict \<Rightarrow> world \<Rightarrow> (exn + pyval) \<times> world) \<Rightarrow> nat \<times> dict \<times> pyval list \<times> world
     \<Rightarrow> nat \<times> dict \<times> pyval list \<times> world \<Rightarrow> bool"
  for fetch where
  start: "pages_reach fetch c c"
| next_page:
    "pages_reach fetch c (page, params, all_data, w) \<Longrightarrow>
     fetch (AList.update ''page'' (PStr (str_nat page)) params) w = (Inr response, w1) \<Longrightarrow>
     extend_results all_data response = Inr all_data' \<Longrightarrow>
     last_page response = Inr False \<Longrightarrow>
     pages_reach fetch c
       (page + 1, AList.update ''page'' (PStr (str_nat page)) params, all_data', w1)"

section \<open>Statements and expressions of Python used by the operations\<close>

text \<open>
  A \<^verbatim>\<open>for\<close> statement over a list whose body updates some local state and may raise:
  the first exception ends the loop. A \<^verbatim>\<open>continue\<close> is a body that returns the state
  unchanged.
\<close>

fun for_each ::
  "('x \<Rightarrow> 'acc \<Rightarrow> world \<Rightarrow> (exn + 'acc) \<times> world) \<Rightarrow> 'x list \<Rightarrow> 'acc \<Rightarrow> world
     \<Rightarrow> (exn + 'acc) \<times> world" where
  "for_each stmt [] acc w = (Inr acc, w)"
| "for_each stmt (x # xs) acc w =
     (case stmt x acc w of
        (Inl e, w') \<Rightarrow> (Inl e, w')
      | (Inr acc', w') \<Rightarrow> for_each stmt xs acc' w')"

text \<open>
  An f-string places a string as it
  is; for any other value it places what \<^verbatim>\<open>str()\<close> returns, a function of the language
  that is a parameter \<open>py_str\<close> here. \<^verbatim>\<open>strptime\<close> wants a string; what it makes of a
  string in the format \<^verbatim>\<open>%Y-%m-%dT%H:%M:%SZ\<close> is a function of the library and a parameter
  \<open>strptime\<close> here. Instants and durations are integers, in microseconds.
\<close>

definition fstr :: "(pyval \<Rightarrow> string) \<Rightarrow> pyval \<Rightarrow> string" where
  "fstr py_str v = (case v of PStr s \<Rightarrow> s | _ \<Rightarrow> py_str v)"

definition py_strptime :: "(string \<Rightarrow> exn + int) \<Rightarrow> pyval \<Rightarrow> exn + int" where
  "py_strptime strptime v = (case v of PStr s \<Rightarrow> strptime s | _ \<Rightarrow> Inl TypeError)"

definition day :: int where
  "day = 86400000000"

text \<open>
  \<^verbatim>\<open>a < b\<close> and \<^verbatim>\<open>a > b\<close>, as \<^verbatim>\<open>min\<close> and \<^verbatim>\<open>max\<close> use them, with the cases of
  \<^const>\<open>py_ge\<close>.
\<close>

definition py_lt :: "pyval \<Rightarrow> pyval \<Rightarrow> exn + bool" where
  "py_lt a b =
     (case (as_number a, as_number b) of
        (Some x, Some y) \<Rightarrow> Inr (x < y)
      | _ \<Rightarrow> (case (a, b) of (PStr s, PStr t) \<Rightarrow> Inr (s < t) | _ \<Rightarrow> Inl TypeError))"

definition py_gt :: "pyval \<Rightarrow> pyval \<Rightarrow> exn + bool" where
  "py_gt a b = py_lt b a"

section \<open>Posting and patching\<close>

text \<open>
  \<^verbatim>\<open>Exercism.post\<close> and \<^verbatim>\<open>Exercism.patch\<close> pass their arguments to \<^verbatim>\<open>request\<close> with
  the session's method; \<^verbatim>\<open>finish\<close> and the method \<^verbatim>\<open>nudge\<close> act on each discussion of
  a list.
\<close>

definition post :: "server \<Rightarrow> pyval list \<Rightarrow> real \<Rightarrow> dict \<Rightarrow> world \<Rightarrow> (exn + response) \<times> world" where
  "post srv as sleep kw w = request srv SessionPost as sleep kw w"

definition patch :: "server \<Rightarrow> pyval list \<Rightarrow> real \<Rightarrow> dict \<Rightarrow> world \<Rightarrow> (exn + response) \<times> world" where
  "patch srv as sleep kw w = request srv SessionPatch as sleep kw w"

definition finish ::
  "server \<Rightarrow> (pyval \<Rightarrow> string) \<Rightarrow> pyval list \<Rightarrow> world \<Rightarrow> (exn + unit) \<times> world" where
  "finish srv py_str uuids w =
     for_each
       (\<lambda>uuid _ u.
          case request srv SessionPatch
                 [PStr (API @ ''/mentoring/discussions/'' @ fstr py_str uuid @ ''/finish'')]
                 0.2 [] u of
            (Inl e, u') \<Rightarrow> (Inl e, u')
          | (Inr _, u') \<Rightarrow> (Inr (), u'))
       uuids () w"

definition default_msg :: string where
  "default_msg =
     ''It's been a while! '' @
     ''How is this exercise going? Are you planning on making more changes? '' @
     ''If you are ready to move on, you can free up the mentoring slot by clicking '' @
     [CHR 0x22] @ ''End discussion'' @ [CHR 0x22] @ ''. '' @
     ''If you are still working on this, that is great, too! '' @
     ''If you have any questions or what any help or tips, just let me know!''"

definition nudge_discussions ::
  "server \<Rightarrow> (pyval \<Rightarrow> string) \<Rightarrow> pyval list \<Rightarrow> string \<Rightarrow> world \<Rightarrow> (exn + unit) \<times> world" where
  "nudge_discussions srv py_str uuids msg w =
     for_each
       (\<lambda>uuid _ u.
          case post srv
                 [PStr (API @ ''/mentoring/discussions/'' @ fstr py_str uuid @ ''/posts'')]
                 0.5
                 [(''data'', PDict [(''content'', PStr (if msg = [] then default_msg else msg))])]
                 u of
            (Inl e, u') \<Rightarrow> (Inl e, u')
          | (Inr _, u') \<Rightarrow> (Inr (), u'))
       uuids () w"

section \<open>Refreshing out-of-date solutions\<close>

text \<open>
  The body of the loop of \<^verbatim>\<open>Exercism.update_exercises\<close> and the method: all pages of
  \<^verbatim>\<open>solutions\<close>, then one \<^verbatim>\<open>PATCH\<close> for each solution that is out of date.
\<close>

definition sync_solution ::
  "server \<Rightarrow> (pyval \<Rightarrow> string) \<Rightarrow> pyval \<Rightarrow> pyval list \<Rightarrow> world \<Rightarrow> (exn + pyval list) \<times> world" where
  "sync_solution srv py_str solution updates w =
     (case getitem solution ''is_out_of_date'' of
        Inl e \<Rightarrow> (Inl e, w)
      | Inr b \<Rightarrow>
          if \<not> truthy b then (Inr updates, w)
          else
            (case getitem solution ''uuid'' of
               Inl e \<Rightarrow> (Inl e, w)
             | Inr uuid \<Rightarrow>
                 (case patch srv [PStr (API @ ''/solutions/'' @ fstr py_str uuid @ ''/sync'')]
                         0.5 [] w of
                    (Inl e, w1) \<Rightarrow> (Inl e, w1)
                  | (Inr resp, w1) \<Rightarrow>
                      (case resp_json resp of
                         Inl e \<Rightarrow> (Inl e, w1)
                       | Inr j \<Rightarrow>
                           (case getitem j ''solution'' of
                              Inl e \<Rightarrow> (Inl e, w1)
                            | Inr s \<Rightarrow> (Inr (updates @ [s]), w1))))))"

definition update_exercises ::
  "server \<Rightarrow> (pyval \<Rightarrow> string) \<Rightarrow> world \<Rightarrow> ((exn + pyval list) \<times> world) option" where
  "update_exercises srv py_str w =
     (case get_all_pages srv [] ''solutions'' None None [] w of
        None \<Rightarrow> None
      | Some (Inl e, _, w1) \<Rightarrow> Some (Inl e, w1)
      | Some (Inr solutions, _, w1) \<Rightarrow> Some (for_each (sync_solution srv py_str) solutions [] w1))"

section \<open>Old mentor discussions\<close>

text \<open>
  \<^verbatim>\<open>[strptime(c['updated_at'], ...) for c in posts]\<close> and \<^verbatim>\<open>max\<close> of a list of instants,
  which raises \<^verbatim>\<open>ValueError\<close> on the empty list.
\<close>

fun post_dates :: "(string \<Rightarrow> exn + int) \<Rightarrow> pyval list \<Rightarrow> exn + int list" where
  "post_dates strptime [] = Inr []"
| "post_dates strptime (c # cs) =
     (case getitem c ''updated_at'' of
        Inl e \<Rightarrow> Inl e
      | Inr ts \<Rightarrow>
          (case py_strptime strptime ts of
             Inl e \<Rightarrow> Inl e
           | Inr t \<Rightarrow>
               (case post_dates strptime cs of
                  Inl e \<Rightarrow> Inl e
                | Inr ds \<Rightarrow> Inr (t # ds))))"

definition max_instant :: "int list \<Rightarrow> exn + int" where
  "max_instant ds = (case ds of [] \<Rightarrow> Inl ValueError | d # ds' \<Rightarrow> Inr (fold max ds' d))"

text \<open>
  The body of the inner loop of \<^verbatim>\<open>Exercism.old_mentor_discussions\<close>, for one discussion
  of a page: skipped when it was updated after the cutoff; otherwise its posts are fetched
  and it is skipped when the most recent post is after the cutoff.
\<close>

definition check_discussion ::
  "server \<Rightarrow> (pyval \<Rightarrow> string) \<Rightarrow> (string \<Rightarrow> exn + int) \<Rightarrow> int \<Rightarrow> pyval \<Rightarrow> pyval list \<Rightarrow> world
     \<Rightarrow> (exn + pyval list) \<times> world" where
  "check_discussion srv py_str strptime cutoff discussion uuids w =
     (case getitem discussion ''updated_at'' of
        Inl e \<Rightarrow> (Inl e, w)
      | Inr ts \<Rightarrow>
          (case py_strptime strptime ts of
             Inl e \<Rightarrow> (Inl e, w)
           | Inr updated \<Rightarrow>
               if updated > cutoff then (Inr uuids, w)
               else
                 (case getitem discussion ''uuid'' of
                    Inl e \<Rightarrow> (Inl e, w)
                  | Inr uuid \<Rightarrow>
                      (case get_json_with_retries srv
                              [PStr (API @ ''/mentoring/discussions/'' @ fstr py_str uuid @ ''/posts'')]
                              0.2 [] w of
                         (Inl e, w1) \<Rightarrow> (Inl e, w1)
                       | (Inr j, w1) \<Rightarrow>
                           (case getitem j ''items'' of
                              Inl e \<Rightarrow> (Inl e, w1)
                            | Inr posts \<Rightarrow>
                                (case py_iter posts of
                                   Inl e \<Rightarrow> (Inl e, w1)
                                 | Inr cs \<Rightarrow>
                                     (case post_dates strptime cs of
                                        Inl e \<Rightarrow> (Inl e, w1)
                                      | Inr ds \<Rightarrow>
                                          (case max_instant ds of
                                             Inl e \<Rightarrow> (Inl e, w1)
                                           | Inr most_recent_post \<Rightarrow>
                                               if most_recent_post > cutoff then (Inr uuids, w1)
                                               else (Inr (uuids @ [uuid]), w1)))))))))"

text \<open>
  The body of the outer loop, for one page number: the page is written into the
  parameters (as an integer here), the page is fetched and its discussions are checked.
  The state of the loop is the dictionary \<open>params\<close> and the list \<open>uuids\<close>.
\<close>

definition check_page ::
  "server \<Rightarrow> (pyval \<Rightarrow> string) \<Rightarrow> (string \<Rightarrow> exn + int) \<Rightarrow> int \<Rightarrow> int \<Rightarrow> dict \<times> pyval list \<Rightarrow> world
     \<Rightarrow> (exn + dict \<times> pyval list) \<times> world" where
  "check_page srv py_str strptime cutoff page st w =
     (case get_json_with_retries srv [PStr (API @ ''/mentoring/discussions'')] 0.2
             [(''params'', PDict (AList.update ''page'' (PInt page) (fst st)))] w of
        (Inl e, w1) \<Rightarrow> (Inl e, w1)
      | (Inr resp, w1) \<Rightarrow>
          (case getitem resp ''results'' of
             Inl e \<Rightarrow> (Inl e, w1)
           | Inr results \<Rightarrow>
               (case py_iter results of
                  Inl e \<Rightarrow> (Inl e, w1)
                | Inr discussions \<Rightarrow>
                    (case for_each (check_discussion srv py_str strptime cutoff) discussions
                            (snd st) w1 of
                       (Inl e, w2) \<Rightarrow> (Inl e, w2)
                     | (Inr uuids, w2) \<Rightarrow>
                         (Inr (AList.update ''page'' (PInt page) (fst st), uuids), w2)))))"

text \<open>
  \<^verbatim>\<open>Exercism.old_mentor_discussions(self, status, age, order="oldest")\<close>. \<open>now\<close> is what
  \<^verbatim>\<open>datetime.datetime.now()\<close> returns when the method reads the clock, after its first
  fetch. \<^verbatim>\<open>range(1, page_count + 1)\<close> wants an integer.
\<close>

definition old_mentor_discussions ::
  "server \<Rightarrow> (pyval \<Rightarrow> string) \<Rightarrow> (string \<Rightarrow> exn + int) \<Rightarrow> int \<Rightarrow> string \<Rightarrow> int \<Rightarrow> string \<Rightarrow> world
     \<Rightarrow> (exn + pyval list) \<times> world" where
  "old_mentor_discussions srv py_str strptime now status age order w =
     (if order \<notin> {''oldest'', ''recent'', ''exercise'', ''student''} then (Inl AssertionError, w)
      else if status \<notin> {''awaiting_mentor'', ''awaiting_student'', ''finished''}
      then (Inl AssertionError, w)
      else
        (case get_json_with_retries srv [PStr (API @ ''/mentoring/discussions'')] 0.2
                [(''params'', PDict [(''status'', PStr status), (''order'', PStr order)])] w of
           (Inl e, w1) \<Rightarrow> (Inl e, w1)
         | (Inr resp, w1) \<Rightarrow>
             (case getitem resp ''meta'' of
                Inl e \<Rightarrow> (Inl e, w1)
              | Inr m \<Rightarrow>
                  (case getitem m ''total_pages'' of
                     Inl e \<Rightarrow> (Inl e, w1)
                   | Inr pc \<Rightarrow>
                       (case as_number pc of
                          None \<Rightarrow> (Inl TypeError, w1)
                        | Some page_count \<Rightarrow>
                            (case for_each (check_page srv py_str strptime (now - age * day))
                                    [1..page_count]
                                    ([(''status'', PStr status), (''order'', PStr order)], [])
                                    w1 of
                               (Inl e, w2) \<Rightarrow> (Inl e, w2)
                             | (Inr st, w2) \<Rightarrow> (Inr (snd st), w2)))))))"

text \<open>
  The result in the words of the specification, to be compared with
  \<^const>\<open>old_mentor_discussions\<close>. A discussion or a post is timed when its \<^verbatim>\<open>updated_at\<close> is
  a string that \<^verbatim>\<open>strptime\<close> reads, and \<open>time_of\<close> is that instant; \<open>uuid_of\<close> is the
  \<^verbatim>\<open>uuid\<close> of a discussion. With \<open>posts_of u\<close> the posts of the discussion \<open>u\<close>, a
  discussion is a candidate when it was not updated after the cutoff, and the most recent
  of its posts was not either.
\<close>

definition timed :: "(string \<Rightarrow> exn + int) \<Rightarrow> pyval \<Rightarrow> bool" where
  "timed strptime d =
     (case getitem d ''updated_at'' of
        Inr (PStr ts) \<Rightarrow> (case strptime ts of Inr _ \<Rightarrow> True | Inl _ \<Rightarrow> False)
      | _ \<Rightarrow> False)"

definition time_of :: "(string \<Rightarrow> exn + int) \<Rightarrow> pyval \<Rightarrow> int" where
  "time_of strptime d =
     (case getitem d ''updated_at'' of
        Inr (PStr ts) \<Rightarrow> (case strptime ts of Inr t \<Rightarrow> t | Inl _ \<Rightarrow> 0)
      | _ \<Rightarrow> 0)"

definition uuid_of :: "pyval \<Rightarrow> pyval" where
  "uuid_of d = (case getitem d ''uuid'' of Inr u \<Rightarrow> u | Inl _ \<Rightarrow> PNone)"

definition is_candidate ::
  "(string \<Rightarrow> exn + int) \<Rightarrow> int \<Rightarrow> (pyval \<Rightarrow> pyval list) \<Rightarrow> pyval \<Rightarrow> bool" where
  "is_candidate strptime cutoff posts_of d =
     (time_of strptime d \<le> cutoff
      \<and> Max (set (map (time_of strptime) (posts_of (uuid_of d)))) \<le> cutoff)"

section \<open>Finishing or nudging old discussions\<close>

text \<open>
  \<^verbatim>\<open>min(p["updated_at"] for p in posts if not p['by_student'])\<close> and
  \<^verbatim>\<open>max((p["updated_at"] for p in posts if p['by_student']), default=...)\<close> consume a
  generator: for each post the condition is evaluated, then the element, and the element
  is compared with the best so far (\<^verbatim>\<open><\<close> for \<^verbatim>\<open>min\<close>, \<^verbatim>\<open>>\<close> for \<^verbatim>\<open>max\<close>). The
  result is \<open>None\<close> when no post was selected.
\<close>

fun select_extreme ::
  "(pyval \<Rightarrow> bool) \<Rightarrow> (pyval \<Rightarrow> pyval \<Rightarrow> exn + bool) \<Rightarrow> pyval list \<Rightarrow> pyval option
     \<Rightarrow> exn + pyval option" where
  "select_extreme keep better [] cur = Inr cur"
| "select_extreme keep better (p # ps) cur =
     (case getitem p ''by_student'' of
        Inl e \<Rightarrow> Inl e
      | Inr b \<Rightarrow>
          if \<not> keep b then select_extreme keep better ps cur
          else
            (case getitem p ''updated_at'' of
               Inl e \<Rightarrow> Inl e
             | Inr t \<Rightarrow>
                 (case cur of
                    None \<Rightarrow> select_extreme keep better ps (Some t)
                  | Some m \<Rightarrow>
                      (case better t m of
                         Inl e \<Rightarrow> Inl e
                       | Inr c \<Rightarrow> select_extreme keep better ps (Some (if c then t else m))))))"

text \<open>\<^verbatim>\<open>len([p for p in posts if p["updated_at"] >= updated])\<close>.\<close>

fun count_since :: "pyval \<Rightarrow> pyval list \<Rightarrow> exn + nat" where
  "count_since updated [] = Inr 0"
| "count_since updated (p # ps) =
     (case getitem p ''updated_at'' of
        Inl e \<Rightarrow> Inl e
      | Inr t \<Rightarrow>
          (case py_ge t updated of
             Inl e \<Rightarrow> Inl e
           | Inr c \<Rightarrow>
               (case count_since updated ps of
                  Inl e \<Rightarrow> Inl e
                | Inr n \<Rightarrow> Inr (if c then Suc n else n))))"

text \<open>
  The decision of the function \<^verbatim>\<open>nudge\<close> for the posts of one discussion: \<open>True\<close> is
  \<^verbatim>\<open>to_finish\<close>, \<open>False\<close> is \<^verbatim>\<open>to_nudge\<close>. \<^verbatim>\<open>age.days\<close> is the whole number of days of
  the difference (rounded down).
\<close>

definition nudge_decision :: "(string \<Rightarrow> exn + int) \<Rightarrow> int \<Rightarrow> pyval list \<Rightarrow> exn + bool" where
  "nudge_decision strptime now posts =
     (case select_extreme (\<lambda>b. \<not> truthy b) py_lt posts None of
        Inl e \<Rightarrow> Inl e
      | Inr None \<Rightarrow> Inl ValueError
      | Inr (Some first_mentor) \<Rightarrow>
          (case select_extreme truthy py_gt posts None of
             Inl e \<Rightarrow> Inl e
           | Inr ls \<Rightarrow>
               (case py_gt (case ls of None \<Rightarrow> first_mentor | Some s \<Rightarrow> s) first_mentor of
                  Inl e \<Rightarrow> Inl e
                | Inr c \<Rightarrow>
                    (case count_since
                            (if c then (case ls of None \<Rightarrow> first_mentor | Some s \<Rightarrow> s)
                             else first_mentor) posts of
                       Inl e \<Rightarrow> Inl e
                     | Inr posts_since_updated \<Rightarrow>
                         (case py_strptime strptime
                                 (if c then (case ls of None \<Rightarrow> first_mentor | Some s \<Rightarrow> s)
                                  else first_mentor) of
                            Inl e \<Rightarrow> Inl e
                          | Inr t \<Rightarrow>
                              Inr ((now - t) div day > 300 \<and> posts_since_updated > 5))))))"

text \<open>
  The body of the loop of \<^verbatim>\<open>nudge\<close> for one discussion, and the function: the
  candidates of \<^verbatim>\<open>old_mentor_discussions("awaiting_student", 30)\<close> are split into the
  two lists, and each list is acted on. \<open>now\<close> is the clock as \<^verbatim>\<open>nudge\<close> reads it first,
  \<open>now'\<close> the clock as \<^verbatim>\<open>old_mentor_discussions\<close> reads it.
\<close>

definition classify_discussion ::
  "server \<Rightarrow> (pyval \<Rightarrow> string) \<Rightarrow> (string \<Rightarrow> exn + int) \<Rightarrow> int \<Rightarrow> pyval
     \<Rightarrow> pyval list \<times> pyval list \<Rightarrow> world \<Rightarrow> (exn + pyval list \<times> pyval list) \<times> world" where
  "classify_discussion srv py_str strptime now uuid st w =
     (case get_json_with_retries srv
             [PStr (API @ ''/mentoring/discussions/'' @ fstr py_str uuid @ ''/posts'')] 0.2 [] w of
        (Inl e, w1) \<Rightarrow> (Inl e, w1)
      | (Inr j, w1) \<Rightarrow>
          (case getitem j ''items'' of
             Inl e \<Rightarrow> (Inl e, w1)
           | Inr items \<Rightarrow>
               (case py_iter items of
                  Inl e \<Rightarrow> (Inl e, w1)
                | Inr posts \<Rightarrow>
                    (case nudge_decision strptime now posts of
                       Inl e \<Rightarrow> (Inl e, w1)
                     | Inr fin \<Rightarrow>
                         if fin then (Inr (fst st @ [uuid], snd st), w1)
                         else (Inr (fst st, snd st @ [uuid]), w1)))))"

definition nudge ::
  "server \<Rightarrow> (pyval \<Rightarrow> string) \<Rightarrow> (string \<Rightarrow> exn + int) \<Rightarrow> int \<Rightarrow> int \<Rightarrow> world
     \<Rightarrow> (exn + unit) \<times> world" where
  "nudge srv py_str strptime now now' w =
     (case old_mentor_discussions srv py_str strptime now' ''awaiting_student'' 30 ''oldest'' w of
        (Inl e, w1) \<Rightarrow> (Inl e, w1)
      | (Inr ids, w1) \<Rightarrow>
          (case for_each (classify_discussion srv py_str strptime now) ids ([], []) w1 of
             (Inl e, w2) \<Rightarrow> (Inl e, w2)
           | (Inr st, w2) \<Rightarrow>
               (case finish srv py_str (fst st) w2 of
                  (Inl e, w3) \<Rightarrow> (Inl e, w3)
                | (Inr _, w3) \<Rightarrow> nudge_discussions srv py_str (snd st) [] w3)))"

text \<open>
  The decision in the words of the specification, to be compared with
  \<^const>\<open>nudge_decision\<close>. A post is well formed when it has an entry \<^verbatim>\<open>by_student\<close> and an
  entry \<^verbatim>\<open>updated_at\<close> that is a string; timestamps are compared as strings, which for the
  format \<^verbatim>\<open>%Y-%m-%dT%H:%M:%SZ\<close> is their order in time. \<open>first_mentor_post_time\<close> is the
  least \<^verbatim>\<open>updated_at\<close> of the posts not by the student, \<open>last_student_post_time\<close> the
  greatest of the posts by the student (the former when there is none),
  \<open>reference_time\<close> the greater of the two, and \<open>posts_since_updated\<close> the number of posts
  with \<^verbatim>\<open>updated_at\<close> at or after it.
\<close>

definition by_student :: "pyval \<Rightarrow> bool" where
  "by_student p = (case getitem p ''by_student'' of Inl _ \<Rightarrow> False | Inr v \<Rightarrow> truthy v)"

definition updated_at :: "pyval \<Rightarrow> string" where
  "updated_at p = (case getitem p ''updated_at'' of Inr (PStr s) \<Rightarrow> s | _ \<Rightarrow> [])"

definition well_formed_post :: "pyval \<Rightarrow> bool" where
  "well_formed_post p =
     (case getitem p ''by_student'' of
        Inl _ \<Rightarrow> False
      | Inr _ \<Rightarrow> (case getitem p ''updated_at'' of Inr (PStr _) \<Rightarrow> True | _ \<Rightarrow> False))"

definition first_mentor_post_time :: "pyval list \<Rightarrow> string" where
  "first_mentor_post_time posts =
     Min (set (map updated_at (filter (\<lambda>p. \<not> by_student p) posts)))"

definition last_student_post_time :: "pyval list \<Rightarrow> string" where
  "last_student_post_time posts =
     (if filter by_student posts = [] then first_mentor_post_time posts
      else Max (set (map updated_at (filter by_student posts))))"

definition reference_time :: "pyval list \<Rightarrow> string" where
  "reference_time posts = max (first_mentor_post_time posts) (last_student_post_time posts)"

definition posts_since_updated :: "pyval list \<Rightarrow> nat" where
  "posts_since_updated posts =
     length (filter (\<lambda>p. updated_at p \<ge> reference_time posts) posts)"

section \<open>Watching notifications\<close>

text \<open>
  An element of a Python set: a list or a dictionary cannot be hashed
  (\<^verbatim>\<open>TypeError\<close>), and a Boolean is the same element as the integer 0 or 1.
  \<open>uuid_key r\<close> is \<^verbatim>\<open>r["uuid"]\<close> as an element of the set of seen notifications.
\<close>

definition hash_key :: "pyval \<Rightarrow> exn + pyval" where
  "hash_key v =
     (case v of
        PBool b \<Rightarrow> Inr (PInt (if b then 1 else 0))
      | PList _ \<Rightarrow> Inl TypeError
      | PDict _ \<Rightarrow> Inl TypeError
      | _ \<Rightarrow> Inr v)"

definition uuid_key :: "pyval \<Rightarrow> exn + pyval" where
  "uuid_key r = (case getitem r ''uuid'' of Inl e \<Rightarrow> Inl e | Inr v \<Rightarrow> hash_key v)"

fun uuid_keys :: "pyval list \<Rightarrow> exn + pyval list" where
  "uuid_keys [] = Inr []"
| "uuid_keys (r # rs) =
     (case uuid_key r of
        Inl e \<Rightarrow> Inl e
      | Inr k \<Rightarrow> (case uuid_keys rs of Inl e \<Rightarrow> Inl e | Inr ks \<Rightarrow> Inr (k # ks)))"

definition WATCHER_SLEEP_SEC :: real where
  "WATCHER_SLEEP_SEC = 15 * 60"

definition notifications :: "server \<Rightarrow> world \<Rightarrow> (exn + pyval) \<times> world" where
  "notifications srv w = get_json_with_retries srv [PStr (API @ ''/notifications'')] 0.2 [] w"

text \<open>
  The first statement of \<^verbatim>\<open>Exercism.notification_pusher\<close>:
  \<^verbatim>\<open>seen_notifications = set(r["uuid"] for r in self.notifications()["results"])\<close>.
\<close>

definition prime_seen :: "server \<Rightarrow> world \<Rightarrow> (exn + pyval set) \<times> world" where
  "prime_seen srv w =
     (case notifications srv w of
        (Inl e, w1) \<Rightarrow> (Inl e, w1)
      | (Inr j, w1) \<Rightarrow>
          (case getitem j ''results'' of
             Inl e \<Rightarrow> (Inl e, w1)
           | Inr results \<Rightarrow>
               (case py_iter results of
                  Inl e \<Rightarrow> (Inl e, w1)
                | Inr rs \<Rightarrow>
                    (case uuid_keys rs of
                       Inl e \<Rightarrow> (Inl e, w1)
                     | Inr ks \<Rightarrow> (Inr (set ks), w1)))))"

text \<open>
  \<^verbatim>\<open>[r for r in results if not r["is_read"]]\<close> and
  \<^verbatim>\<open>[r for r in unread if r["uuid"] not in seen_notifications]\<close>.
\<close>

fun unread_of :: "pyval list \<Rightarrow> exn + pyval list" where
  "unread_of [] = Inr []"
| "unread_of (r # rs) =
     (case getitem r ''is_read'' of
        Inl e \<Rightarrow> Inl e
      | Inr b \<Rightarrow>
          (case unread_of rs of
             Inl e \<Rightarrow> Inl e
           | Inr us \<Rightarrow> Inr (if truthy b then us else r # us)))"

fun unseen_of :: "pyval set \<Rightarrow> pyval list \<Rightarrow> exn + pyval list" where
  "unseen_of seen [] = Inr []"
| "unseen_of seen (r # rs) =
     (case uuid_key r of
        Inl e \<Rightarrow> Inl e
      | Inr k \<Rightarrow>
          (case unseen_of seen rs of
             Inl e \<Rightarrow> Inl e
           | Inr us \<Rightarrow> Inr (if k \<in> seen then us else r # us)))"

text \<open>
  \<^verbatim>\<open>for result in unseen: callback(result)\<close>. The callback is the caller's: it has a
  memory of its own (of type \<open>'s\<close>), it is handed the dictionary object itself, and it may
  keep that object and change it, in this call or in a later one. Within one polling cycle
  the objects it can reach are those it has been handed so far, the one of the present
  call last. \<open>cb s objs\<close> is what a call does when the memory is \<open>s\<close> and these objects
  hold \<open>objs\<close>: the exception it raises, if any; for the \<open>i\<close>-th of these objects the
  contents \<open>f i d\<close> it leaves in it when they were \<open>d\<close>; and its memory afterwards. An
  object that is no dictionary cannot be changed. \<open>dispatch_all\<close> runs the loop and returns
  the objects as the calls leave them.
\<close>

type_synonym 's callback = "'s \<Rightarrow> pyval list \<Rightarrow> exn option \<times> (nat \<Rightarrow> dict \<Rightarrow> dict) \<times> 's"

definition mutate :: "(nat \<Rightarrow> dict \<Rightarrow> dict) \<Rightarrow> pyval list \<Rightarrow> pyval list" where
  "mutate f objs =
     map (\<lambda>(i, v). case v of PDict d \<Rightarrow> PDict (f i d) | _ \<Rightarrow> v) (zip [0..<length objs] objs)"

fun dispatch_all ::
  "'s callback \<Rightarrow> pyval list \<Rightarrow> pyval list \<Rightarrow> 's \<Rightarrow> world
     \<Rightarrow> (exn + pyval list \<times> 's) \<times> world" where
  "dispatch_all cb handed [] s w = (Inr (handed, s), w)"
| "dispatch_all cb handed (r # rs) s w =
     (case cb s (handed @ [r]) of
        (Some e, f, s') \<Rightarrow> (Inl e, w @ [Dispatch r])
      | (None, f, s') \<Rightarrow>
          dispatch_all cb (mutate f (handed @ [r])) rs s' (w @ [Dispatch r]))"

definition is_HTTPError :: "exn \<Rightarrow> bool" where
  "is_HTTPError e = (case e of HTTPError _ \<Rightarrow> True | _ \<Rightarrow> False)"

text \<open>
  One run of the body of \<^verbatim>\<open>while True\<close>, from the set of seen keys and the memory of
  the callback. \<open>Inr st'\<close>: the body ended (or reached \<^verbatim>\<open>continue\<close>) and the loop goes on
  in the state \<open>st'\<close>; \<open>Inl e\<close>: the exception \<open>e\<close> left the loop and the method. Only the
  fetch and the first comprehension stand inside \<^verbatim>\<open>try\<close>, and only
  \<^verbatim>\<open>requests.exceptions.HTTPError\<close> is caught. The last statement,
  \<^verbatim>\<open>seen_notifications.update(r["uuid"] for r in unseen)\<close>, reads the notifications as
  the callback has left them.
\<close>

definition poll_unread :: "server \<Rightarrow> world \<Rightarrow> (exn + pyval list) \<times> world" where
  "poll_unread srv w =
     (case notifications srv w of
        (Inl e, w1) \<Rightarrow> (Inl e, w1)
      | (Inr j, w1) \<Rightarrow>
          (case getitem j ''results'' of
             Inl e \<Rightarrow> (Inl e, w1)
           | Inr results \<Rightarrow>
               (case py_iter results of
                  Inl e \<Rightarrow> (Inl e, w1)
                | Inr rs \<Rightarrow> (unread_of rs, w1))))"

definition poll_cycle ::
  "server \<Rightarrow> 's callback \<Rightarrow> pyval set \<times> 's \<Rightarrow> world
     \<Rightarrow> (exn + pyval set \<times> 's) \<times> world" where
  "poll_cycle srv cb st w =
     (case time_sleep WATCHER_SLEEP_SEC w of
        (Inl e, w0) \<Rightarrow> (Inl e, w0)
      | (Inr _, w0) \<Rightarrow>
          (case poll_unread srv w0 of
             (Inl e, w1) \<Rightarrow> if is_HTTPError e then (Inr st, w1) else (Inl e, w1)
           | (Inr unread, w1) \<Rightarrow>
               (case unseen_of (fst st) unread of
                  Inl e \<Rightarrow> (Inl e, w1)
                | Inr unseen \<Rightarrow>
                    (case dispatch_all cb [] unseen (snd st) w1 of
                       (Inl e, w2) \<Rightarrow> (Inl e, w2)
                     | (Inr (unseen', s'), w2) \<Rightarrow>
                         (case uuid_keys unseen' of
                            Inl e \<Rightarrow> (Inl e, w2)
                          | Inr ks \<Rightarrow> (Inr (fst st \<union> set ks, s'), w2))))))"

text \<open>
  The loop never ends by itself. \<open>poll_cycles srv cb n st w\<close> runs its body \<open>n\<close> times, or
  until an exception leaves it; \<open>notification_pusher srv cb s n w\<close> is the method, called
  with a callback whose memory is \<open>s\<close>, observed until its \<open>n\<close>-th polling cycle has ended.
  The state of the loop is the set of seen keys and the memory of the callback.
\<close>

fun poll_cycles ::
  "server \<Rightarrow> 's callback \<Rightarrow> nat \<Rightarrow> pyval set \<times> 's \<Rightarrow> world
     \<Rightarrow> (exn + pyval set \<times> 's) \<times> world" where
  "poll_cycles srv cb 0 st w = (Inr st, w)"
| "poll_cycles srv cb (Suc n) st w =
     (case poll_cycle srv cb st w of
        (Inl e, w') \<Rightarrow> (Inl e, w')
      | (Inr st', w') \<Rightarrow> poll_cycles srv cb n st' w')"

definition notification_pusher ::
  "server \<Rightarrow> 's callback \<Rightarrow> 's \<Rightarrow> nat \<Rightarrow> world \<Rightarrow> (exn + pyval set \<times> 's) \<times> world" where
  "notification_pusher srv cb s n w =
     (case prime_seen srv w of
        (Inl e, w1) \<Rightarrow> (Inl e, w1)
      | (Inr seen, w1) \<Rightarrow> poll_cycles srv cb n (seen, s) w1)"

fun dispatched :: "world \<Rightarrow> pyval list" where
  "dispatched [] = []"
| "dispatched (Dispatch r # w) = r # dispatched w"
| "dispatched (_ # w) = dispatched w"

text \<open>
  A server that lists every notification once: no response carries two results with the
  same key.
\<close>

definition lists_each_once :: "server \<Rightarrow> bool" where
  "lists_each_once srv =
     (\<forall>n r resp j results rs.
        srv n r = Reply resp \<longrightarrow> body resp = Some j \<longrightarrow> getitem j ''results'' = Inr results \<longrightarrow>
        py_iter results = Inr rs \<longrightarrow> distinct (map uuid_key rs))"

text \<open>A callback that leaves the \<^verbatim>\<open>uuid\<close> entry of every notification as it finds it.\<close>

definition keeps_uuid :: "'s callback \<Rightarrow> bool" where
  "keeps_uuid cb =
     (\<forall>s objs e f s' i d. cb s objs = (e, f, s') \<longrightarrow> map_of (f i d) ''uuid'' = map_of d ''uuid'')"

section \<open>Servers used in the examples\<close>

text \<open>
  Replies: a success with a JSON body, and a bare status code. Servers: one that always
  answers 503; one that answers 503 once and then succeeds; one that sends
  \<^verbatim>\<open>retry-after: 1\<close> once and then succeeds; one whose collection is empty
  (\<^verbatim>\<open>total_pages\<close> is 0); one with a single page that sends \<^verbatim>\<open>retry-after: 0\<close> with its
  first response; one with two pages of one record each; and one that answers its
  first \<open>k\<close> requests with the document \<open>j\<close> and every later request with 503.
\<close>

definition ok_reply :: "pyval \<Rightarrow> outcome" where
  "ok_reply j = Reply \<lparr>retry_after = None, status_code = 200, body = Some j\<rparr>"

definition status_reply :: "nat \<Rightarrow> outcome" where
  "status_reply c = Reply \<lparr>retry_after = None, status_code = c, body = None\<rparr>"

definition always_503 :: server where
  "always_503 n r = status_reply 503"

definition failing_once :: server where
  "failing_once n r =
     (if n = 0 then status_reply 503 else ok_reply (PDict [(''tracks'', PList [])]))"

definition rate_limited_once :: server where
  "rate_limited_once n r =
     (if n = 0 then Reply \<lparr>retry_after = Some (IntText 1), status_code = 429, body = None\<rparr>
      else ok_reply (PDict [(''tracks'', PList [])]))"

definition empty_collection :: server where
  "empty_collection n r = ok_reply (page_envelope [] 1 0)"

definition rate_limited_page :: server where
  "rate_limited_page n r =
     Reply \<lparr>retry_after = (if n = 0 then Some (IntText 0) else None), status_code = 200,
            body = Some (page_envelope [PStr ''a''] 1 1)\<rparr>"

definition two_pages :: server where
  "two_pages n r = ok_reply (page_envelope [PStr (if n = 0 then ''a'' else ''b'')] (int (Suc n)) 2)"

definition up_for :: "nat \<Rightarrow> pyval \<Rightarrow> server" where
  "up_for k j n r = (if n < k then ok_reply j else status_reply 503)"

text \<open>The same, refusing every connection after its first \<open>k\<close> requests.\<close>

definition down_after :: "nat \<Rightarrow> pyval \<Rightarrow> server" where
  "down_after k j n r = (if n < k then ok_reply j else Refused)"

text \<open>
  A server of notifications. Its first response lists \<open>a\<close> (unread) and \<open>r\<close> (read); its
  second lists both as unread, and a new \<open>b\<close>; every later one lists these three and a new
  \<open>c\<close>, all unread. \<open>inbox_fetch\<close> is the trace of one fetch from it.
\<close>

definition notification :: "string \<Rightarrow> bool \<Rightarrow> pyval" where
  "notification u rd = PDict [(''uuid'', PStr u), (''is_read'', PBool rd)]"

definition inbox_results :: "nat \<Rightarrow> pyval list" where
  "inbox_results n =
     (if n = 0 then [notification ''a'' False, notification ''r'' True]
      else if n = 1 then [notification ''a'' False, notification ''r'' False,
                          notification ''b'' False]
      else [notification ''a'' False, notification ''r'' False, notification ''b'' False,
            notification ''c'' False])"

definition inbox :: server where
  "inbox n r = ok_reply (PDict [(''results'', PList (inbox_results n))])"

definition inbox_fetch :: world where
  "inbox_fetch =
     [Attempt 1,
      Call \<lparr>func = SessionGet, args = [PStr (API @ ''/notifications'')], kwargs = []\<rparr>,
      Sleep 0.2]"

text \<open>
  A server that answers its first request with no notification, and every later one with
  the same unread notification listed twice.
\<close>

definition dup_inbox :: server where
  "dup_inbox n r =
     ok_reply (PDict [(''results'', PList
       (if n = 0 then [] else [notification ''a'' False, notification ''a'' False]))])"

text \<open>
  A discussion of seven posts: a first post of the mentor, a post of the student nine days
  later, and one post of the mentor on each of the five days that follow. \<open>since_reference\<close>
  reads the timestamp of the student's post as the instant 0 and no other timestamp.
\<close>

definition mentoring_post :: "bool \<Rightarrow> string \<Rightarrow> pyval" where
  "mentoring_post s t = PDict [(''by_student'', PBool s), (''updated_at'', PStr t)]"

definition thread :: "pyval list" where
  "thread =
     [mentoring_post False ''2023-01-01T00:00:00Z'',
      mentoring_post True ''2023-01-10T00:00:00Z'',
      mentoring_post False ''2023-01-11T00:00:00Z'',
      mentoring_post False ''2023-01-12T00:00:00Z'',
      mentoring_post False ''2023-01-13T00:00:00Z'',
      mentoring_post False ''2023-01-14T00:00:00Z'',
      mentoring_post False ''2023-01-15T00:00:00Z'']"

definition since_reference :: "string \<Rightarrow> exn + int" where
  "since_reference s = (if s = ''2023-01-10T00:00:00Z'' then Inr 0 else Inl ValueError)"

text \<open>
  A server of mentoring discussions, with one page of three discussions: \<open>d1\<close>, old and
  with one old post; \<open>d2\<close>, old and with a recent post; \<open>d3\<close>, recent. And a server with
  one old discussion that has no post. \<open>since_2024\<close> reads the two timestamps that occur, as
  the instants 0 and 60 days.
\<close>

definition discussion :: "string \<Rightarrow> string \<Rightarrow> pyval" where
  "discussion u t = PDict [(''uuid'', PStr u), (''updated_at'', PStr t)]"

definition since_2024 :: "string \<Rightarrow> exn + int" where
  "since_2024 s =
     (if s = ''2024-01-01T00:00:00Z'' then Inr 0
      else if s = ''2024-03-01T00:00:00Z'' then Inr (60 * day)
      else Inl ValueError)"

definition listing :: "pyval list \<Rightarrow> pyval" where
  "listing ds =
     PDict [(''results'', PList ds), (''meta'', PDict [(''total_pages'', PInt 1)])]"

definition mentoring_posts :: "pyval \<Rightarrow> pyval list" where
  "mentoring_posts u =
     (if u = PStr ''d1'' then [PDict [(''updated_at'', PStr ''2024-01-01T00:00:00Z'')]]
      else if u = PStr ''d2''
      then [PDict [(''updated_at'', PStr ''2024-01-01T00:00:00Z'')],
            PDict [(''updated_at'', PStr ''2024-03-01T00:00:00Z'')]]
      else [])"

definition mentoring_api :: server where
  "mentoring_api n r =
     (if args r = [PStr ''https://exercism.org/api/v2/mentoring/discussions'']
      then ok_reply (listing [discussion ''d1'' ''2024-01-01T00:00:00Z'',
                              discussion ''d2'' ''2024-01-01T00:00:00Z'',
                              discussion ''d3'' ''2024-03-01T00:00:00Z''])
      else if args r = [PStr ''https://exercism.org/api/v2/mentoring/discussions/d1/posts'']
      then ok_reply (PDict [(''items'', PList (mentoring_posts (PStr ''d1'')))])
      else if args r = [PStr ''https://exercism.org/api/v2/mentoring/discussions/d2/posts'']
      then ok_reply (PDict [(''items'', PList (mentoring_posts (PStr ''d2'')))])
      else status_reply 404)"

definition no_posts_api :: server where
  "no_posts_api n r =
     (if args r = [PStr ''https://exercism.org/api/v2/mentoring/discussions'']
      then ok_reply (listing [discussion ''d1'' ''2024-01-01T00:00:00Z''])
      else ok_reply (PDict [(''items'', PList [])]))"

section \<open>Callbacks used in the examples\<close>

text \<open>
  Two callbacks without memory: one that changes nothing, and one that writes the
  \<^verbatim>\<open>uuid\<close> \<open>x\<close> into every notification it holds.
\<close>

definition quiet_callback :: "unit callback" where
  "quiet_callback s objs = (None, (\<lambda>i d. d), s)"

definition renaming_callback :: "unit callback" where
  "renaming_callback s objs = (None, (\<lambda>i d. AList.update ''uuid'' (PStr ''x'') d), s)"


section \<open>Properties of the request layer\<close>

subsection \<open>Traces\<close>

lemma calls_of_append [simp]: "calls_of (u @ v) = calls_of u @ calls_of v"
  by (induction u rule: calls_of.induct) simp_all

lemma sleeps_of_append [simp]: "sleeps_of (u @ v) = sleeps_of u @ sleeps_of v"
  by (induction u rule: sleeps_of.induct) simp_all

lemma attempts_of_append [simp]: "attempts_of (u @ v) = attempts_of u @ attempts_of v"
  by (induction u rule: attempts_of.induct) simp_all

lemma backoffs_of_append [simp]: "backoffs_of (u @ v) = backoffs_of u @ backoffs_of v"
  by (induction u rule: backoffs_of.induct) simp_all

subsection \<open>The blocking request layer\<close>

lemmas call_defs =
  call_error_def binds_def positional_names_def request_keywords_def encode_params_def

lemmas aio_call_defs =
  aio_call_error_def binds_def aio_keywords_def build_query_def query_value_def query_var_def
  truthy_def

lemma unpack_pair_error: "unpack_pair p = Inl e \<Longrightarrow> e = TypeError \<or> e = ValueError"
  by (auto simp: unpack_pair_def split: pyval.splits list.splits)

lemma first_error_unpack:
  "first_error (\<lambda>p. case unpack_pair p of Inl e \<Rightarrow> Some e | Inr _ \<Rightarrow> None) ps = Some e
     \<Longrightarrow> e = TypeError \<or> e = ValueError"
  by (induction ps) (auto split: sum.splits dest: unpack_pair_error)

text \<open>
  Without a \<^verbatim>\<open>retry-after\<close> header the blocking layer issues the call once; with the
  header and an integer delay \<open>d\<close> it sleeps \<open>d + 1\<close> seconds and issues the same call
  again, and the second response is not inspected for the header.
\<close>

lemma call_error_cases: "call_error f as kw = Some e \<Longrightarrow> e = TypeError \<or> e = ValueError"
  by (auto simp: call_error_def encode_params_def
      split: if_splits option.splits pyval.splits dest: first_error_unpack)

lemma binds_url_first:
  "binds [''url''] kws (u # as) kw \<Longrightarrow> as = [] \<and> ''url'' \<notin> set (map fst kw)"
  by (auto simp: binds_def list_all_iff)

lemma binds_no_url: "''url'' \<notin> set (map fst kw) \<Longrightarrow> \<not> binds ps kws [] kw"
  by (simp add: binds_def)

lemma request_no_retry_after:
  assumes "call_error f as kw = None"
    and "srv (length (calls_of w)) \<lparr>func = f, args = as, kwargs = kw\<rparr> = Reply resp"
    and "retry_after resp = None"
  shows "request srv f as sleep kw w =
           request_tail resp sleep (w @ [Call \<lparr>func = f, args = as, kwargs = kw\<rparr>])"
  using assms by (simp add: request_def session_call_def)

lemma request_retry_after:
  assumes "call_error f as kw = None"
    and "srv (length (calls_of w)) \<lparr>func = f, args = as, kwargs = kw\<rparr> = Reply resp"
    and "retry_after resp = Some (IntText d)"
    and "0 \<le> d"
  shows "request srv f as sleep kw w =
           (case srv (Suc (length (calls_of w))) \<lparr>func = f, args = as, kwargs = kw\<rparr> of
              Refused \<Rightarrow>
                (Inl ConnectionError,
                 w @ [Call \<lparr>func = f, args = as, kwargs = kw\<rparr>, Sleep (real_of_int (d + 1)),
                      Call \<lparr>func = f, args = as, kwargs = kw\<rparr>])
            | Reply resp2 \<Rightarrow>
                request_tail resp2 sleep
                  (w @ [Call \<lparr>func = f, args = as, kwargs = kw\<rparr>, Sleep (real_of_int (d + 1)),
                        Call \<lparr>func = f, args = as, kwargs = kw\<rparr>]))"
  using assms by (simp add: request_def session_call_def py_int_def time_sleep_def split: outcome.splits)

lemma request_tail_quiet:
  "request_tail resp sleep w = (r, w') \<Longrightarrow>
     \<exists>es. w' = w @ es \<and> attempts_of es = [] \<and> backoffs_of es = []"
  by (auto simp: request_tail_def time_sleep_def split: sum.splits if_splits)

lemma session_call_quiet:
  "session_call srv f as kw w = (r, w') \<Longrightarrow>
     \<exists>es. w' = w @ es \<and> attempts_of es = [] \<and> backoffs_of es = []"
  by (auto simp: session_call_def split: option.splits outcome.splits)

lemma request_quiet:
  assumes "request srv f as sleep kw w = (r, w')"
  shows "\<exists>es. w' = w @ es \<and> attempts_of es = [] \<and> backoffs_of es = []"
proof (cases "session_call srv f as kw w")
  case (Pair r1 w1)
  obtain es1 where e1: "w1 = w @ es1" "attempts_of es1 = []" "backoffs_of es1 = []"
    using session_call_quiet [OF Pair] by blast
  show ?thesis
  proof (cases r1)
    case (Inl e)
    with Pair assms e1 show ?thesis by (auto simp: request_def)
  next
    case (Inr resp)
    show ?thesis
    proof (cases "retry_after resp")
      case None
      with Pair Inr assms have "request_tail resp sleep w1 = (r, w')"
        by (simp add: request_def)
      from request_tail_quiet [OF this] e1 show ?thesis by auto
    next
      case (Some h)
      show ?thesis
      proof (cases h)
        case OtherText
        with Some Pair Inr assms e1 show ?thesis by (auto simp: request_def py_int_def)
      next
        case (IntText d)
        show ?thesis
        proof (cases "real_of_int (d + 1) < 0")
          case True
          with IntText Some Pair Inr assms e1 show ?thesis
            by (auto simp: request_def py_int_def time_sleep_def)
        next
          case False
          let ?w2 = "w1 @ [Sleep (real_of_int (d + 1))]"
          obtain r3 w3 where c2: "session_call srv f as kw ?w2 = (r3, w3)"
            by (cases "session_call srv f as kw ?w2")
          obtain es3 where e3: "w3 = ?w2 @ es3" "attempts_of es3 = []" "backoffs_of es3 = []"
            using session_call_quiet [OF c2] by blast
          show ?thesis
          proof (cases r3)
            case (Inl e)
            with c2 False IntText Some Pair Inr assms e1 e3 show ?thesis
              by (auto simp: request_def py_int_def time_sleep_def)
          next
            case (Inr resp2)
            with c2 False IntText Some Pair \<open>r1 = Inr resp\<close> assms
            have "request_tail resp2 sleep w3 = (r, w')"
              by (simp add: request_def py_int_def time_sleep_def)
            from request_tail_quiet [OF this] e1 e3 show ?thesis by auto
          qed
        qed
      qed
    qed
  qed
qed

lemma get_json_attempt_quiet:
  assumes "get_json_attempt srv as sleep kw w = (r, w')"
  shows "\<exists>es. w' = w @ es \<and> attempts_of es = [] \<and> backoffs_of es = []"
proof (cases "request srv SessionGet as sleep kw w")
  case (Pair r1 w1)
  with assms have "w' = w1" by (auto simp: get_json_attempt_def split: sum.splits)
  with request_quiet [OF Pair] show ?thesis by simp
qed

lemma request_tail_errors:
  "request_tail resp sleep w = (Inl e, w') \<Longrightarrow> e = ValueError \<or> (\<exists>n. e = HTTPError n)"
  by (auto simp: request_tail_def raise_for_status_def time_sleep_def split: if_splits)

lemma session_call_errors:
  "session_call srv f as kw w = (Inl e, w') \<Longrightarrow> e \<in> {TypeError, ValueError, ConnectionError}"
  by (auto simp: session_call_def split: option.splits outcome.splits dest: call_error_cases)

lemma request_errors:
  assumes "request srv f as sleep kw w = (Inl e, w')"
  shows "e \<in> {TypeError, ConnectionError, ValueError} \<or> (\<exists>n. e = HTTPError n)"
  using assms
  by (auto simp: request_def py_int_def time_sleep_def
      split: prod.splits sum.splits option.splits header_value.splits if_splits
      dest!: request_tail_errors session_call_errors)

lemma get_json_attempt_errors:
  assumes "get_json_attempt srv as sleep kw w = (Inl e, w')"
  shows "e \<in> {TypeError, ConnectionError, ValueError, JSONDecodeError} \<or> (\<exists>n. e = HTTPError n)"
  using assms
  by (auto simp: get_json_attempt_def resp_json_def
      split: prod.splits sum.splits option.splits dest!: request_errors)

lemma get_json_attempt_not_RetryError:
  "get_json_attempt srv as sleep kw w \<noteq> (Inl (RetryError e), w')"
  using get_json_attempt_errors [of srv as sleep kw w "RetryError e" w'] by auto

subsection \<open>The cooperative request layer\<close>

text \<open>
  In the cooperative method a first response with a \<^verbatim>\<open>retry-after\<close> header is never
  followed by a second request: the first call got through, so there was no further
  positional argument, and the second call has none at all.
\<close>

lemma aio_retry_after_no_reissue:
  assumes "aio_session_get srv (PStr (API @ ''/'' @ endpoint) # as)
             (if ''headers'' \<in> set (map fst kw) then kw else kw @ [(''headers'', hdrs)]) w
           = (Inr resp, w1)"
    and "retry_after resp = Some (IntText d)"
  shows "aio_get_json_attempt srv hdrs as endpoint sleep kw w =
           (Inl TypeError, w1 @ [Sleep (max 0 (real_of_int (d + 1)))])"
proof -
  let ?kw = "if ''headers'' \<in> set (map fst kw) then kw else kw @ [(''headers'', hdrs)]"
  from assms(1) have "binds [''url''] aio_keywords (PStr (API @ ''/'' @ endpoint) # as) ?kw"
    by (auto simp: aio_session_get_def aio_call_error_def split: option.splits if_splits)
  then have "as = [] \<and> ''url'' \<notin> set (map fst ?kw)"
    by (rule binds_url_first)
  then have as: "as = []" and "''url'' \<notin> set (map fst ?kw)"
    by (rule conjunct1, rule conjunct2)
  then have "aio_call_error [] ?kw = Some TypeError"
    by (simp add: aio_call_error_def binds_no_url)
  then have "aio_session_get srv [] ?kw u = (Inl TypeError, u)" for u
    by (simp add: aio_session_get_def)
  with assms as show ?thesis
    by (simp add: aio_get_json_attempt_def Let_def py_int_def asyncio_sleep_def)
qed

text \<open>
  Claim C1. The server \<^const>\<open>rate_limited_once\<close>: a first response with
  \<^verbatim>\<open>retry-after: 1\<close> (status 429) and a second response without the header (status 200). The blocking layer sleeps 2 seconds and issues the same
  call a second time. The cooperative method, for the endpoint \<^verbatim>\<open>tracks\<close>, sleeps 2
  seconds and then raises \<^verbatim>\<open>TypeError\<close>: its second call leaves the URL out, so exactly
  one request is issued and none is reissued.
\<close>

theorem rate_limit_reissue_cooperative_omits_url:
  "request rate_limited_once SessionGet [PStr ''https://exercism.org/api/v2/tracks''] 0.2 [] []
   = (Inr \<lparr>retry_after = None, status_code = 200,
           body = Some (PDict [(''tracks'', PList [])])\<rparr>,
      [Call \<lparr>func = SessionGet, args = [PStr ''https://exercism.org/api/v2/tracks''],
             kwargs = []\<rparr>,
       Sleep 2,
       Call \<lparr>func = SessionGet, args = [PStr ''https://exercism.org/api/v2/tracks''],
             kwargs = []\<rparr>,
       Sleep 0.2])
   \<and>
   aio_get_json_attempt rate_limited_once (PDict [(''Authorization'', PStr ''Bearer t'')]) []
     ''tracks'' 0.2 [] []
   = (Inl TypeError,
      [Call \<lparr>func = SessionGet, args = [PStr ''https://exercism.org/api/v2/tracks''],
             kwargs = [(''headers'', PDict [(''Authorization'', PStr ''Bearer t'')])]\<rparr>,
       Sleep 2])"
  by (simp add: request_def session_call_def request_tail_def raise_for_status_def
      time_sleep_def py_int_def call_defs aio_get_json_attempt_def aio_session_get_def aio_call_defs
      asyncio_sleep_def API_def rate_limited_once_def ok_reply_def)

section \<open>Properties of the retry decorator\<close>

text \<open>
  The loop of the decorator, unrolled: at most three attempts, a wait of 15 seconds before
  the second and before the third, \<^verbatim>\<open>RetryError\<close> after the third failure.
\<close>

lemma retrying_three_attempts:
  "retrying fn 1 w =
     (case fn (w @ [Attempt 1]) of
        (Inr x, w1) \<Rightarrow> (Inr x, w1)
      | (Inl e1, w1) \<Rightarrow>
          if \<not> retry_if_exception_type e1 then (Inl e1, w1)
          else
            (case fn (w1 @ [Backoff 15, Attempt 2]) of
               (Inr x, w2) \<Rightarrow> (Inr x, w2)
             | (Inl e2, w2) \<Rightarrow>
                 if \<not> retry_if_exception_type e2 then (Inl e2, w2)
                 else
                   (case fn (w2 @ [Backoff 15, Attempt 3]) of
                      (Inr x, w3) \<Rightarrow> (Inr x, w3)
                    | (Inl e3, w3) \<Rightarrow>
                        if \<not> retry_if_exception_type e3 then (Inl e3, w3)
                        else (Inl (RetryError e3), w3))))"
proof -
  have w1: "wait_exponential 2 15 60 1 = 15" by (simp add: wait_exponential_def)
  have w2: "wait_exponential 2 15 60 2 = 15" by (simp add: wait_exponential_def)
  have s1: "\<not> stop_after_attempt 3 1" by (simp add: stop_after_attempt_def)
  have s2: "\<not> stop_after_attempt 3 2" by (simp add: stop_after_attempt_def)
  have s3: "stop_after_attempt 3 3" by (simp add: stop_after_attempt_def)
  have n2: "(1::nat) + 1 = 2" and n3: "(2::nat) + 1 = 3" by simp_all
  have r3: "retrying fn 3 u =
     (case fn (u @ [Attempt 3]) of
        (Inr x, w3) \<Rightarrow> (Inr x, w3)
      | (Inl e3, w3) \<Rightarrow>
          if \<not> retry_if_exception_type e3 then (Inl e3, w3) else (Inl (RetryError e3), w3))" for u
    by (subst retrying.simps) (simp add: stop_after_attempt_def split: prod.splits sum.splits)
  have r2: "retrying fn 2 u =
     (case fn (u @ [Attempt 2]) of
        (Inr x, w2) \<Rightarrow> (Inr x, w2)
      | (Inl e2, w2) \<Rightarrow>
          if \<not> retry_if_exception_type e2 then (Inl e2, w2)
          else retrying fn 3 (w2 @ [Backoff 15]))" for u
    by (subst retrying.simps) (simp add: stop_after_attempt_def wait_exponential_def numeral_3_eq_3 numeral_2_eq_2 split: prod.splits sum.splits)
  have r1: "retrying fn 1 u =
     (case fn (u @ [Attempt 1]) of
        (Inr x, w1) \<Rightarrow> (Inr x, w1)
      | (Inl e1, w1) \<Rightarrow>
          if \<not> retry_if_exception_type e1 then (Inl e1, w1)
          else retrying fn 2 (w1 @ [Backoff 15]))" for u
    by (subst retrying.simps) (simp add: stop_after_attempt_def wait_exponential_def numeral_2_eq_2 split: prod.splits sum.splits)
  show ?thesis
    by (subst r1) (simp add: r2 r3 cong: prod.case_cong sum.case_cong if_cong)
qed

text \<open>
  Claim C2 (as the code has it). \<^verbatim>\<open>get_json_with_retries\<close> makes at most three attempts.
  An attempt that returns ends the call; an attempt that raises anything but
  \<^verbatim>\<open>HTTPError\<close> or \<^verbatim>\<open>ConnectionError\<close> ends it with that exception, at once; after the
  third failure the call raises \<^verbatim>\<open>RetryError\<close> and there is no fourth attempt. The
  attempts are numbered 1, 2, 3 in the trace, there is one wait between two attempts and
  every wait is 15 seconds (so the waits are non-decreasing and within 15 and 60).
\<close>

theorem get_json_with_retries_policy:
  "get_json_with_retries srv as sleep kw w =
     (case get_json_attempt srv as sleep kw (w @ [Attempt 1]) of
        (Inr x, w1) \<Rightarrow> (Inr x, w1)
      | (Inl e1, w1) \<Rightarrow>
          if \<not> retry_if_exception_type e1 then (Inl e1, w1)
          else
            (case get_json_attempt srv as sleep kw (w1 @ [Backoff 15, Attempt 2]) of
               (Inr x, w2) \<Rightarrow> (Inr x, w2)
             | (Inl e2, w2) \<Rightarrow>
                 if \<not> retry_if_exception_type e2 then (Inl e2, w2)
                 else
                   (case get_json_attempt srv as sleep kw (w2 @ [Backoff 15, Attempt 3]) of
                      (Inr x, w3) \<Rightarrow> (Inr x, w3)
                    | (Inl e3, w3) \<Rightarrow>
                        if \<not> retry_if_exception_type e3 then (Inl e3, w3)
                        else (Inl (RetryError e3), w3))))
   \<and> (\<exists>es. snd (get_json_with_retries srv as sleep kw w) = w @ es
         \<and> attempts_of es \<in> {[1], [1, 2], [1, 2, 3]}
         \<and> backoffs_of es = replicate (length (attempts_of es) - 1) 15
         \<and> (case fst (get_json_with_retries srv as sleep kw w) of
               Inr j \<Rightarrow> True
             | Inl (RetryError e) \<Rightarrow> attempts_of es = [1, 2, 3] \<and> retry_if_exception_type e
             | Inl e \<Rightarrow> \<not> retry_if_exception_type e))"
  (is "?closed \<and> ?summary")
proof
  show cl: ?closed
    unfolding get_json_with_retries_def by (rule retrying_three_attempts)
  let ?att = "get_json_attempt srv as sleep kw"
  obtain r1 w1 where a1: "?att (w @ [Attempt 1]) = (r1, w1)" by (cases "?att (w @ [Attempt 1])")
  obtain es1 where q1: "w1 = (w @ [Attempt 1]) @ es1" "attempts_of es1 = []" "backoffs_of es1 = []"
    using get_json_attempt_quiet [OF a1] by blast
  obtain r2 w2 where a2: "?att (w1 @ [Backoff 15, Attempt 2]) = (r2, w2)"
    by (cases "?att (w1 @ [Backoff 15, Attempt 2])")
  obtain es2 where q2: "w2 = (w1 @ [Backoff 15, Attempt 2]) @ es2" "attempts_of es2 = []"
      "backoffs_of es2 = []"
    using get_json_attempt_quiet [OF a2] by blast
  obtain r3 w3 where a3: "?att (w2 @ [Backoff 15, Attempt 3]) = (r3, w3)"
    by (cases "?att (w2 @ [Backoff 15, Attempt 3])")
  obtain es3 where q3: "w3 = (w2 @ [Backoff 15, Attempt 3]) @ es3" "attempts_of es3 = []"
      "backoffs_of es3 = []"
    using get_json_attempt_quiet [OF a3] by blast
  have nr: "\<And>e u. r1 \<noteq> Inl (RetryError e)" "\<And>e. r2 \<noteq> Inl (RetryError e)" "\<And>e. r3 \<noteq> Inl (RetryError e)"
    using a1 a2 a3 get_json_attempt_not_RetryError by fastforce+
  consider (one) "get_json_with_retries srv as sleep kw w = (r1, w1)"
      "\<forall>e. r1 = Inl e \<longrightarrow> \<not> retry_if_exception_type e"
    | (two) "get_json_with_retries srv as sleep kw w = (r2, w2)"
      "\<forall>e. r2 = Inl e \<longrightarrow> \<not> retry_if_exception_type e"
    | (three) "get_json_with_retries srv as sleep kw w = (r3, w3)"
      "\<forall>e. r3 = Inl e \<longrightarrow> \<not> retry_if_exception_type e"
    | (fail) e where "get_json_with_retries srv as sleep kw w = (Inl (RetryError e), w3)"
      "retry_if_exception_type e"
    using cl a1 a2 a3 by (auto split: sum.splits if_splits)
  then show ?summary
  proof cases
    case one
    have "w1 = w @ (Attempt 1 # es1)" using q1 by simp
    moreover have "attempts_of (Attempt 1 # es1) = [1]" "backoffs_of (Attempt 1 # es1) = []"
      using q1 by simp_all
    ultimately show ?thesis using one nr
      by (intro exI [of _ "Attempt 1 # es1"]) (auto split: sum.splits exn.splits)
  next
    case two
    let ?es = "Attempt 1 # es1 @ [Backoff 15, Attempt 2] @ es2"
    have "w2 = w @ ?es" using q1 q2 by simp
    moreover have "attempts_of ?es = [1, 2]" "backoffs_of ?es = [15]"
      using q1 q2 by simp_all
    ultimately show ?thesis using two nr
      by (intro exI [of _ ?es]) (auto split: sum.splits exn.splits)
  next
    case three
    let ?es = "Attempt 1 # es1 @ [Backoff 15, Attempt 2] @ es2 @ [Backoff 15, Attempt 3] @ es3"
    have "w3 = w @ ?es" using q1 q2 q3 by simp
    moreover have "attempts_of ?es = [1, 2, 3]" "backoffs_of ?es = [15, 15]"
      using q1 q2 q3 by simp_all
    ultimately show ?thesis using three nr
      by (intro exI [of _ ?es]) (auto split: sum.splits exn.splits simp: numeral_2_eq_2)
  next
    case fail
    let ?es = "Attempt 1 # es1 @ [Backoff 15, Attempt 2] @ es2 @ [Backoff 15, Attempt 3] @ es3"
    have "w3 = w @ ?es" using q1 q2 q3 by simp
    moreover have "attempts_of ?es = [1, 2, 3]" "backoffs_of ?es = [15, 15]"
      using q1 q2 q3 by simp_all
    ultimately show ?thesis using fail
      by (intro exI [of _ ?es]) (auto simp: numeral_2_eq_2)
  qed
qed

text \<open>
  Claim C2 as stated has the waits at about 15 and then 30 seconds. With the server
  \<^const>\<open>always_503\<close> the two waits are 15 and 15 seconds:
  \<^verbatim>\<open>multiplier * 2 ** (attempt_number - 1)\<close> is 2 and then 4, both under the floor of 15.
\<close>

theorem backoff_waits_counterexample:
  "backoffs_of (snd (get_json_with_retries always_503
       [PStr ''https://exercism.org/api/v2/tracks''] 0.2 [] [])) = [15, 15]
   \<and> backoffs_of (snd (get_json_with_retries always_503
       [PStr ''https://exercism.org/api/v2/tracks''] 0.2 [] [])) \<noteq> [15, 30]"
  by (simp add: get_json_with_retries_def get_json_attempt_def request_def session_call_def
      request_tail_def raise_for_status_def call_defs retrying.simps
      retry_if_exception_type_def stop_after_attempt_def wait_exponential_def
      always_503_def status_reply_def)

section \<open>The two variants compared\<close>

text \<open>
  Claim C9. The server \<^const>\<open>failing_once\<close>: status 503 and then status 200 with a JSON
  body, the same for both variants. The blocking fetch waits 15 seconds, attempts again and returns the body. The
  cooperative fetch raises \<^verbatim>\<open>ClientResponseError\<close> after its first attempt: its decorator
  retries on the exception classes of \<^verbatim>\<open>requests\<close>, which \<^verbatim>\<open>aiohttp\<close> does not raise.
\<close>

theorem variants_differ_on_transient_failure:
  "get_json_with_retries failing_once [PStr ''https://exercism.org/api/v2/tracks''] 0.2 [] []
   = (Inr (PDict [(''tracks'', PList [])]),
      [Attempt 1,
       Call \<lparr>func = SessionGet, args = [PStr ''https://exercism.org/api/v2/tracks''],
             kwargs = []\<rparr>,
       Backoff 15,
       Attempt 2,
       Call \<lparr>func = SessionGet, args = [PStr ''https://exercism.org/api/v2/tracks''],
             kwargs = []\<rparr>,
       Sleep 0.2])
   \<and>
   aio_get_json_with_retries failing_once (PDict [(''Authorization'', PStr ''Bearer t'')]) []
     ''tracks'' 0.2 [] []
   = (Inl (ClientResponseError 503),
      [Attempt 1,
       Call \<lparr>func = SessionGet, args = [PStr ''https://exercism.org/api/v2/tracks''],
             kwargs = [(''headers'', PDict [(''Authorization'', PStr ''Bearer t'')])]\<rparr>])"
  by (simp add: get_json_with_retries_def get_json_attempt_def request_def session_call_def
      request_tail_def raise_for_status_def time_sleep_def call_defs resp_json_def
      retrying.simps retry_if_exception_type_def stop_after_attempt_def wait_exponential_def
      aio_get_json_with_retries_def aio_get_json_attempt_def aio_session_get_def aio_call_defs aio_tail_def
      aio_raise_for_status_def API_def failing_once_def status_reply_def ok_reply_def)

section \<open>Properties of pagination\<close>

lemma get_json_with_retries_ok:
  assumes "call_error SessionGet [u] kw = None"
    and "srv (length (calls_of w)) \<lparr>func = SessionGet, args = [u], kwargs = kw\<rparr> = Reply resp"
    and "retry_after resp = None" and "status_code resp < 400" and "body resp = Some j"
    and "0 \<le> sleep"
  shows "get_json_with_retries srv [u] sleep kw w =
           (Inr j, w @ [Attempt 1, Call \<lparr>func = SessionGet, args = [u], kwargs = kw\<rparr>, Sleep sleep])"
  using assms
  by (simp add: get_json_with_retries_def retrying.simps get_json_attempt_def request_def
      session_call_def request_tail_def raise_for_status_def time_sleep_def
      resp_json_def)

lemma aio_get_json_with_retries_ok:
  assumes "aio_call_error [PStr (API @ ''/'' @ endpoint)]
             (if ''headers'' \<in> set (map fst kw) then kw else kw @ [(''headers'', hdrs)]) = None"
    and "srv (length (calls_of w))
             \<lparr>func = SessionGet, args = [PStr (API @ ''/'' @ endpoint)],
              kwargs = (if ''headers'' \<in> set (map fst kw) then kw else kw @ [(''headers'', hdrs)])\<rparr>
           = Reply resp"
    and "retry_after resp = None" and "status_code resp < 400" and "body resp = Some j"
  shows "aio_get_json_with_retries srv hdrs [] endpoint sleep kw w =
           (Inr j, w @ [Attempt 1,
              Call \<lparr>func = SessionGet, args = [PStr (API @ ''/'' @ endpoint)],
                    kwargs = (if ''headers'' \<in> set (map fst kw) then kw
                              else kw @ [(''headers'', hdrs)])\<rparr>,
              Sleep (max 0 sleep)])"
  using assms
  by (simp add: aio_get_json_with_retries_def retrying.simps aio_get_json_attempt_def Let_def
      aio_session_get_def aio_tail_def aio_raise_for_status_def asyncio_sleep_def resp_json_def)

text \<open>
  A call with one positional argument and the only keyword \<^verbatim>\<open>params\<close>, a dictionary, is
  accepted by \<^verbatim>\<open>requests\<close>; with \<^verbatim>\<open>headers\<close> beside it, it is accepted by
  \<^verbatim>\<open>aiohttp\<close> when the values of the dictionary are strings or integers, or lists of
  such.
\<close>

lemma call_error_params [simp]: "call_error SessionGet [u] [(''params'', PDict ps)] = None"
  by (simp add: call_defs)

lemma call_error_plain [simp]: "call_error f [u] [] = None"
  by (simp add: call_defs split: callable.splits)

lemma list_all_update:
  "list_all P ps \<Longrightarrow> P (k, v) \<Longrightarrow> list_all P (AList.update k v ps)"
  by (induction ps) auto

lemma aio_call_error_params:
  assumes "list_all (\<lambda>p. query_value (snd p)) ps"
  shows "aio_call_error [u] [(''params'', PDict ps), (''headers'', h)] = None"
  using assms by (simp add: aio_call_error_def binds_def aio_keywords_def build_query_def)

lemma aio_call_error_plain [simp]: "aio_call_error [u] [(''headers'', h)] = None"
  by (simp add: aio_call_error_def binds_def aio_keywords_def)

lemma extend_results_envelope [simp]:
  "extend_results acc (page_envelope rs c t) = Inr (acc @ rs)"
  by (simp add: extend_results_def page_envelope_def getitem_def py_iter_def)

lemma last_page_envelope [simp]:
  "last_page (page_envelope rs c t) = Inr (c \<ge> t)"
  by (simp add: last_page_def page_envelope_def getitem_def py_ge_def as_number_def)

lemma pages_loop_traverse_inv:
  fixes T T' :: nat
  assumes T': "T' = max 1 T"
    and F: "\<And>k ps u. k < T' \<Longrightarrow> length (calls_of u) = base + k \<Longrightarrow> I ps \<Longrightarrow>
             fetch (AList.update ''page'' (PStr (str_nat (Suc k))) ps) u =
               (Inr (page_envelope (pages k) (int (Suc k)) (int T)),
                u @ evs (AList.update ''page'' (PStr (str_nat (Suc k))) ps))"
    and E: "\<And>ps. length (calls_of (evs ps)) = 1"
    and P: "\<And>k ps. I ps \<Longrightarrow> I (AList.update ''page'' (PStr (str_nat (Suc k))) ps)"
    and "k < T'" and "length (calls_of u) = base + k" and "I ps"
  shows "pages_loop fetch (Suc k) ps acc u =
           Some (Inr (acc @ concat (map pages [k..<T'])),
                 AList.update ''page'' (PStr (str_nat T')) ps,
                 u @ concat (map (\<lambda>j. evs (AList.update ''page'' (PStr (str_nat (Suc j))) ps))
                              [k..<T']))"
  using assms(5,6,7)
proof (induction "T' - k" arbitrary: k ps acc u)
  case 0
  then have False by linarith
  then show ?case ..
next
  case (Suc m)
  let ?ps = "AList.update ''page'' (PStr (str_nat (Suc k))) ps"
  have f: "fetch ?ps u = (Inr (page_envelope (pages k) (int (Suc k)) (int T)), u @ evs ?ps)"
    using F Suc.prems by blast
  have inv: "I ?ps" using P Suc.prems(3) by blast
  have upt: "[k..<T'] = k # [Suc k..<T']"
    using Suc.prems by (simp add: upt_conv_Cons)
  show ?case
  proof (cases "Suc k \<ge> T")
    case True
    with Suc.prems T' have eq: "Suc k = T'" by linarith
    have stop: "int T \<le> int (Suc k)" using True by simp
    have "pages_loop fetch (Suc k) ps acc u = Some (Inr (acc @ pages k), ?ps, u @ evs ?ps)"
      by (subst pages_loop.simps) (use True in \<open>simp add: f\<close>)
    also have "\<dots> = Some (Inr (acc @ concat (map pages [k..<T'])),
                 AList.update ''page'' (PStr (str_nat T')) ps,
                 u @ concat (map (\<lambda>j. evs (AList.update ''page'' (PStr (str_nat (Suc j))) ps))
                              [k..<T']))"
      unfolding upt unfolding eq [symmetric] by simp
    finally show ?thesis .
  next
    case False
    then have k': "Suc k < T'" using T' by linarith
    have go: "\<not> int T \<le> int (Suc k)" using False by simp
    have m: "m = T' - Suc k" using Suc.hyps(2) by linarith
    have len: "length (calls_of (u @ evs ?ps)) = base + Suc k"
      using Suc.prems E by simp
    have ih: "pages_loop fetch (Suc (Suc k)) ?ps (acc @ pages k) (u @ evs ?ps) =
           Some (Inr ((acc @ pages k) @ concat (map pages [Suc k..<T'])),
                 AList.update ''page'' (PStr (str_nat T')) ?ps,
                 (u @ evs ?ps) @ concat (map (\<lambda>j. evs (AList.update ''page'' (PStr (str_nat (Suc j))) ?ps))
                              [Suc k..<T']))"
      using Suc.hyps(1) [OF m k' len inv] .
    have "pages_loop fetch (Suc k) ps acc u =
            pages_loop fetch (Suc (Suc k)) ?ps (acc @ pages k) (u @ evs ?ps)"
      by (subst pages_loop.simps) (use False in \<open>simp add: f\<close>)
    also note ih
    also have "Some (Inr ((acc @ pages k) @ concat (map pages [Suc k..<T'])),
                 AList.update ''page'' (PStr (str_nat T')) ?ps,
                 (u @ evs ?ps) @ concat (map (\<lambda>j. evs (AList.update ''page'' (PStr (str_nat (Suc j))) ?ps))
                              [Suc k..<T']))
             = Some (Inr (acc @ concat (map pages [k..<T'])),
                 AList.update ''page'' (PStr (str_nat T')) ps,
                 u @ concat (map (\<lambda>j. evs (AList.update ''page'' (PStr (str_nat (Suc j))) ps))
                              [k..<T']))"
      unfolding upt by simp
    finally show ?thesis .
  qed
qed

lemma pages_loop_traverse:
  fixes T T' :: nat
  assumes T': "T' = max 1 T"
    and F: "\<And>k ps u. k < T' \<Longrightarrow> length (calls_of u) = base + k \<Longrightarrow>
             fetch (AList.update ''page'' (PStr (str_nat (Suc k))) ps) u =
               (Inr (page_envelope (pages k) (int (Suc k)) (int T)),
                u @ evs (AList.update ''page'' (PStr (str_nat (Suc k))) ps))"
    and E: "\<And>ps. length (calls_of (evs ps)) = 1"
    and "k < T'" and "length (calls_of u) = base + k"
  shows "pages_loop fetch (Suc k) ps acc u =
           Some (Inr (acc @ concat (map pages [k..<T'])),
                 AList.update ''page'' (PStr (str_nat T')) ps,
                 u @ concat (map (\<lambda>j. evs (AList.update ''page'' (PStr (str_nat (Suc j))) ps))
                              [k..<T']))"
  by (rule pages_loop_traverse_inv [where I = "\<lambda>ps. True" and base = base and T = T, OF T' F E _ assms(4,5)])
     simp_all

lemma requested_page_params [simp]:
  "requested_page \<lparr>func = f, args = as,
       kwargs = (''params'', PDict (AList.update ''page'' v ps)) # kw\<rparr> = Some v"
  by (simp add: requested_page_def update_conv')

lemma requested_page_params_headers [simp]:
  "requested_page \<lparr>func = f, args = as,
       kwargs = ((''params'', PDict (AList.update ''page'' v ps)) # kw) @ kw'\<rparr> = Some v"
  by (simp add: requested_page_def update_conv')

text \<open>
  Claim C3 (as the code has it). \<^verbatim>\<open>get_all_pages\<close> is called with an endpoint, and with or
  without the keyword arguments \<^verbatim>\<open>params\<close> (a dictionary) and \<^verbatim>\<open>sleep\<close>. The server
  reports \<open>T\<close> pages in every response and answers a request for page \<open>k + 1\<close> with the
  records \<open>pages k\<close> and that page number; each of these responses is a success (a status
  below 400) and has no \<^verbatim>\<open>retry-after\<close> header. Then the blocking method, when
  \<^verbatim>\<open>sleep\<close> is not negative, and the cooperative method, when the values of \<^verbatim>\<open>params\<close>
  are strings or integers, or lists of such, return the records of all pages, page after
  page and in the order of each page; they issue one request for each of the pages
  1, ..., \<open>max 1 T\<close>, in this order, and no other request; and the number of records
  returned is the sum of the lengths of the pages. The first page is always requested,
  also when \<open>T\<close> is 0.
\<close>

theorem get_all_pages_traversal:
  fixes T :: nat and pages :: "nat \<Rightarrow> pyval list" and status :: "nat \<Rightarrow> nat"
  assumes srv: "\<forall>k<max 1 T. \<forall>r. requested_page r = Some (PStr (str_nat (Suc k))) \<longrightarrow>
             srv (length (calls_of w) + k) r =
               Reply \<lparr>retry_after = None, status_code = status k,
                      body = Some (page_envelope (pages k) (int (Suc k)) (int T))\<rparr>"
    and status: "\<forall>k<max 1 T. status k < 400"
    and params: "params = None \<and> d = [] \<or> params = Some (PDict d)"
  shows "((\<forall>s. sleep = Some s \<longrightarrow> 0 \<le> s) \<longrightarrow>
          (\<exists>w'. get_all_pages srv [] endpoint params sleep [] w =
              Some (Inr (concat (map pages [0..<max 1 T])),
                    PDict (AList.update ''page'' (PStr (str_nat (max 1 T))) d), w')
            \<and> map requested_page (calls_of w') =
                map requested_page (calls_of w) @
                map (\<lambda>k. Some (PStr (str_nat (Suc k)))) [0..<max 1 T]))
       \<and> (list_all (\<lambda>p. query_value (snd p)) d \<longrightarrow>
          (\<exists>w'. aio_get_all_pages srv (PDict [(''Authorization'', PStr (''Bearer '' @ token))]) []
                  endpoint params sleep [] w =
              Some (Inr (concat (map pages [0..<max 1 T])),
                    PDict (AList.update ''page'' (PStr (str_nat (max 1 T))) d), w')
            \<and> map requested_page (calls_of w') =
                map requested_page (calls_of w) @
                map (\<lambda>k. Some (PStr (str_nat (Suc k)))) [0..<max 1 T]))
       \<and> length (concat (map pages [0..<max 1 T])) = (\<Sum>k<max 1 T. length (pages k))"
proof (intro conjI impI)
  define T' where "T' = max 1 T"
  have T': "T' = max 1 T" by (rule T'_def)
  have pos: "0 < T'" unfolding T'_def by simp
  define s where "s = (case sleep of None \<Rightarrow> 0.2 | Some s \<Rightarrow> s)"
  have pd: "(case params of None \<Rightarrow> PDict [] | Some p \<Rightarrow> p) = PDict d"
    using params by auto
  let ?url = "PStr (API @ ''/'' @ endpoint)"
  let ?hdrs = "PDict [(''Authorization'', PStr (''Bearer '' @ token))]"
  have reply: "srv (length (calls_of u)) \<lparr>func = f, args = a,
                  kwargs = (''params'', PDict (AList.update ''page'' (PStr (str_nat (Suc k))) ps)) # kw\<rparr>
        = Reply \<lparr>retry_after = None, status_code = status k,
                      body = Some (page_envelope (pages k) (int (Suc k)) (int T))\<rparr>"
      and ok: "status k < 400"
    if "k < T'" "length (calls_of u) = length (calls_of w) + k" for k ps u f a kw
    using that srv status by (simp_all add: T'_def)
  {
    assume sleep: "\<forall>s. sleep = Some s \<longrightarrow> 0 \<le> s"
    have s0: "0 \<le> s" using sleep by (auto simp: s_def split: option.splits)
    define evs where "evs = (\<lambda>ps. [Attempt 1,
        Call \<lparr>func = SessionGet, args = [?url], kwargs = [(''params'', PDict ps)]\<rparr>, Sleep s])"
    define fetch where "fetch = page_fetch srv [] endpoint sleep []"
    have F: "fetch (AList.update ''page'' (PStr (str_nat (Suc k))) ps) u =
                 (Inr (page_envelope (pages k) (int (Suc k)) (int T)),
                  u @ evs (AList.update ''page'' (PStr (str_nat (Suc k))) ps))"
      if "k < T'" "length (calls_of u) = length (calls_of w) + k" for k ps u
      unfolding fetch_def evs_def page_fetch_def s_def [symmetric]
      by (rule get_json_with_retries_ok [where resp = "\<lparr>retry_after = None, status_code = status k,
                        body = Some (page_envelope (pages k) (int (Suc k)) (int T))\<rparr>"])
         (use that reply [OF that] ok [OF that] s0 in \<open>simp_all add: call_error_params\<close>)
    have E: "length (calls_of (evs ps)) = 1" for ps by (simp add: evs_def)
    have run: "pages_loop fetch (Suc 0) d [] w =
             Some (Inr ([] @ concat (map pages [0..<T'])),
                   AList.update ''page'' (PStr (str_nat T')) d,
                   w @ concat (map (\<lambda>j. evs (AList.update ''page'' (PStr (str_nat (Suc j))) d))
                                [0..<T']))"
      by (rule pages_loop_traverse [OF T' F E pos]) simp_all
    have calls: "map requested_page (calls_of (concat (map (\<lambda>j. evs (AList.update ''page'' (PStr (str_nat (Suc j))) d)) [k..<n])))
        = map (\<lambda>k. Some (PStr (str_nat (Suc k)))) [k..<n]" for k n
      by (induction n) (simp_all add: evs_def)
    show "\<exists>w'. get_all_pages srv [] endpoint params sleep [] w =
                Some (Inr (concat (map pages [0..<max 1 T])),
                      PDict (AList.update ''page'' (PStr (str_nat (max 1 T))) d), w')
              \<and> map requested_page (calls_of w') =
                  map requested_page (calls_of w) @
                  map (\<lambda>k. Some (PStr (str_nat (Suc k)))) [0..<max 1 T]"
      unfolding T' [symmetric]
      using run calls [of 0 T']
      by (simp add: get_all_pages_def pd fetch_def)
  }
  {
    assume query: "list_all (\<lambda>p. query_value (snd p)) d"
    define kw' where "kw' = (\<lambda>ps. [(''params'', PDict ps), (''headers'', ?hdrs)])"
    define aevs where "aevs = (\<lambda>ps. [Attempt 1,
        Call \<lparr>func = SessionGet, args = [?url], kwargs = kw' ps\<rparr>, Sleep (max 0 s)])"
    define afetch where "afetch = aio_page_fetch srv ?hdrs [] endpoint sleep []"
    have rp: "requested_page \<lparr>func = f, args = a,
                 kwargs = kw' (AList.update ''page'' v ps)\<rparr> = Some v" for f a v ps
      by (simp add: kw'_def requested_page_def update_conv')
    have AF: "afetch (AList.update ''page'' (PStr (str_nat (Suc k))) ps) u =
                 (Inr (page_envelope (pages k) (int (Suc k)) (int T)),
                  u @ aevs (AList.update ''page'' (PStr (str_nat (Suc k))) ps))"
      if "k < T'" "length (calls_of u) = length (calls_of w) + k"
        "list_all (\<lambda>p. query_value (snd p)) ps" for k ps u
    proof -
      have q: "list_all (\<lambda>p. query_value (snd p)) (AList.update ''page'' (PStr (str_nat (Suc k))) ps)"
        using that(3) by (rule list_all_update) (simp add: query_value_def query_var_def)
      show ?thesis
        unfolding afetch_def aevs_def kw'_def aio_page_fetch_def s_def [symmetric]
        using aio_get_json_with_retries_ok [where resp = "\<lparr>retry_after = None, status_code = status k,
                          body = Some (page_envelope (pages k) (int (Suc k)) (int T))\<rparr>"
                and kw = "[(''params'', PDict (AList.update ''page'' (PStr (str_nat (Suc k))) ps))]"
                and hdrs = ?hdrs and srv = srv and w = u and endpoint = endpoint and sleep = s
                and j = "page_envelope (pages k) (int (Suc k)) (int T)"]
          reply [OF that(1,2)] ok [OF that(1,2)] aio_call_error_params [OF q]
        by simp
    qed
    have AE: "length (calls_of (aevs ps)) = 1" for ps by (simp add: aevs_def)
    have arun: "pages_loop afetch (Suc 0) d [] w =
             Some (Inr ([] @ concat (map pages [0..<T'])),
                   AList.update ''page'' (PStr (str_nat T')) d,
                   w @ concat (map (\<lambda>j. aevs (AList.update ''page'' (PStr (str_nat (Suc j))) d))
                                [0..<T']))"
      by (rule pages_loop_traverse_inv [where I = "list_all (\<lambda>p. query_value (snd p))"
            and base = "length (calls_of w)" and T = T, OF T' AF AE _ pos _ query])
         (simp_all add: list_all_update query_value_def query_var_def)
    have acalls: "map requested_page (calls_of (concat (map (\<lambda>j. aevs (AList.update ''page'' (PStr (str_nat (Suc j))) d)) [k..<n])))
        = map (\<lambda>k. Some (PStr (str_nat (Suc k)))) [k..<n]" for k n
      by (induction n) (simp_all add: aevs_def rp)
    show "\<exists>w'. aio_get_all_pages srv ?hdrs [] endpoint params sleep [] w =
                Some (Inr (concat (map pages [0..<max 1 T])),
                      PDict (AList.update ''page'' (PStr (str_nat (max 1 T))) d), w')
              \<and> map requested_page (calls_of w') =
                  map requested_page (calls_of w) @
                  map (\<lambda>k. Some (PStr (str_nat (Suc k)))) [0..<max 1 T]"
      unfolding T' [symmetric]
      using arun acalls [of 0 T']
      by (simp add: aio_get_all_pages_def pd afetch_def)
  }
  show "length (concat (map pages [0..<max 1 T])) = (\<Sum>k<max 1 T. length (pages k))"
    by (simp add: length_concat comp_def sum_list_sum_nth atLeast0LessThan)
qed

theorem get_all_pages_traversal_witness:
  "(\<exists>w'. get_all_pages two_pages [] ''solutions''
            (Some (PDict [(''track_slug'', PStr ''python''), (''page'', PStr ''7'')])) None [] []
            = Some (Inr [PStr ''a'', PStr ''b''],
                    PDict [(''track_slug'', PStr ''python''), (''page'', PStr ''2'')], w')
          \<and> map requested_page (calls_of w') = [Some (PStr ''1''), Some (PStr ''2'')])
   \<and> (\<exists>w'. aio_get_all_pages two_pages (PDict [(''Authorization'', PStr ''Bearer t'')]) []
              ''solutions''
              (Some (PDict [(''track_slug'', PStr ''python''), (''page'', PStr ''7'')])) None [] []
            = Some (Inr [PStr ''a'', PStr ''b''],
                    PDict [(''track_slug'', PStr ''python''), (''page'', PStr ''2'')], w')
          \<and> map requested_page (calls_of w') = [Some (PStr ''1''), Some (PStr ''2'')])"
  using get_all_pages_traversal [where T = 2 and w = "[]" and srv = two_pages
      and pages = "\<lambda>k. [PStr (if k = 0 then ''a'' else ''b'')]" and sleep = None
      and status = "\<lambda>k. 200" and token = "''t''"
      and params = "Some (PDict [(''track_slug'', PStr ''python''), (''page'', PStr ''7'')])"
      and d = "[(''track_slug'', PStr ''python''), (''page'', PStr ''7'')]"
      and endpoint = "''solutions''"]
  by (simp add: two_pages_def ok_reply_def numeral_2_eq_2 str_nat.simps digit_def
      query_value_def query_var_def)

text \<open>
  Claim C3 as stated has exactly \<open>T\<close> requests and no page fetched twice, for every
  traversal. The server \<^const>\<open>empty_collection\<close> reports \<^verbatim>\<open>total_pages\<close> 0 and
  \<^verbatim>\<open>current_page\<close> 1 for the page 1 that is requested: one request is issued, not none.
  The server \<^const>\<open>rate_limited_page\<close> reports one page in every response and sends
  \<^verbatim>\<open>retry-after: 0\<close> with the first: the blocking method requests page 1 twice, and the
  cooperative method raises \<^verbatim>\<open>TypeError\<close> and returns no record.
\<close>

theorem page_requests_counterexample:
  "get_all_pages empty_collection [] ''solutions'' None None [] []
   = Some (Inr [], PDict [(''page'', PStr ''1'')],
       [Attempt 1,
        Call \<lparr>func = SessionGet, args = [PStr ''https://exercism.org/api/v2/solutions''],
              kwargs = [(''params'', PDict [(''page'', PStr ''1'')])]\<rparr>,
        Sleep 0.2])
   \<and> length (calls_of
       [Attempt 1,
        Call \<lparr>func = SessionGet, args = [PStr ''https://exercism.org/api/v2/solutions''],
              kwargs = [(''params'', PDict [(''page'', PStr ''1'')])]\<rparr>,
        Sleep 0.2]) \<noteq> 0
   \<and> get_all_pages rate_limited_page [] ''solutions'' None None [] []
   = Some (Inr [PStr ''a''], PDict [(''page'', PStr ''1'')],
       [Attempt 1,
        Call \<lparr>func = SessionGet, args = [PStr ''https://exercism.org/api/v2/solutions''],
              kwargs = [(''params'', PDict [(''page'', PStr ''1'')])]\<rparr>,
        Sleep 1,
        Call \<lparr>func = SessionGet, args = [PStr ''https://exercism.org/api/v2/solutions''],
              kwargs = [(''params'', PDict [(''page'', PStr ''1'')])]\<rparr>,
        Sleep 0.2])
   \<and> map requested_page (calls_of
       [Attempt 1,
        Call \<lparr>func = SessionGet, args = [PStr ''https://exercism.org/api/v2/solutions''],
              kwargs = [(''params'', PDict [(''page'', PStr ''1'')])]\<rparr>,
        Sleep 1,
        Call \<lparr>func = SessionGet, args = [PStr ''https://exercism.org/api/v2/solutions''],
              kwargs = [(''params'', PDict [(''page'', PStr ''1'')])]\<rparr>,
        Sleep 0.2]) = [Some (PStr ''1''), Some (PStr ''1'')]
   \<and> aio_get_all_pages rate_limited_page (PDict [(''Authorization'', PStr ''Bearer t'')]) []
       ''solutions'' None None [] []
   = Some (Inl TypeError, PDict [(''page'', PStr ''1'')],
       [Attempt 1,
        Call \<lparr>func = SessionGet, args = [PStr ''https://exercism.org/api/v2/solutions''],
              kwargs = [(''params'', PDict [(''page'', PStr ''1'')]),
                        (''headers'', PDict [(''Authorization'', PStr ''Bearer t'')])]\<rparr>,
        Sleep 1])"
proof -
  have a: "get_all_pages empty_collection [] ''solutions'' None None [] []
     = Some (Inr [], PDict [(''page'', PStr ''1'')],
       [Attempt 1,
        Call \<lparr>func = SessionGet, args = [PStr ''https://exercism.org/api/v2/solutions''],
              kwargs = [(''params'', PDict [(''page'', PStr ''1'')])]\<rparr>,
        Sleep 0.2])"
    by (simp add: get_all_pages_def page_fetch_def pages_loop.simps get_json_with_retries_def
      get_json_attempt_def request_def session_call_def
      request_tail_def raise_for_status_def time_sleep_def call_defs resp_json_def
      retrying.simps API_def page_envelope_def extend_results_def last_page_def getitem_def
      py_iter_def py_ge_def as_number_def str_nat.simps digit_def empty_collection_def ok_reply_def)
  have b: "get_all_pages rate_limited_page [] ''solutions'' None None [] []
     = Some (Inr [PStr ''a''], PDict [(''page'', PStr ''1'')],
       [Attempt 1,
        Call \<lparr>func = SessionGet, args = [PStr ''https://exercism.org/api/v2/solutions''],
              kwargs = [(''params'', PDict [(''page'', PStr ''1'')])]\<rparr>,
        Sleep 1,
        Call \<lparr>func = SessionGet, args = [PStr ''https://exercism.org/api/v2/solutions''],
              kwargs = [(''params'', PDict [(''page'', PStr ''1'')])]\<rparr>,
        Sleep 0.2])"
    by (simp add: get_all_pages_def page_fetch_def pages_loop.simps get_json_with_retries_def
      get_json_attempt_def request_def session_call_def py_int_def
      request_tail_def raise_for_status_def time_sleep_def call_defs resp_json_def
      retrying.simps API_def page_envelope_def extend_results_def last_page_def getitem_def
      py_iter_def py_ge_def as_number_def str_nat.simps digit_def rate_limited_page_def)
  have c: "aio_get_all_pages rate_limited_page (PDict [(''Authorization'', PStr ''Bearer t'')]) []
       ''solutions'' None None [] []
     = Some (Inl TypeError, PDict [(''page'', PStr ''1'')],
       [Attempt 1,
        Call \<lparr>func = SessionGet, args = [PStr ''https://exercism.org/api/v2/solutions''],
              kwargs = [(''params'', PDict [(''page'', PStr ''1'')]),
                        (''headers'', PDict [(''Authorization'', PStr ''Bearer t'')])]\<rparr>,
        Sleep 1])"
    by (simp add: aio_get_all_pages_def aio_page_fetch_def pages_loop.simps
      aio_get_json_with_retries_def aio_get_json_attempt_def aio_session_get_def aio_call_defs
      py_int_def asyncio_sleep_def retry_if_exception_type_def Let_def
      retrying.simps API_def str_nat.simps digit_def rate_limited_page_def)
  show ?thesis unfolding a b c by (simp add: requested_page_def)
qed


section \<open>The parameters after pagination\<close>

lemma request_tail_calls:
  "request_tail resp sleep w = (r, w') \<Longrightarrow> calls_of w' = calls_of w"
  by (auto simp: request_tail_def time_sleep_def split: sum.splits if_splits)

lemma session_call_calls:
  "session_call srv f as kw w = (r, w') \<Longrightarrow>
     (\<exists>x. r = Inr x) \<and> calls_of w' = calls_of w @ [\<lparr>func = f, args = as, kwargs = kw\<rparr>]
     \<or> (\<exists>e. r = Inl e) \<and> (calls_of w' = calls_of w
                         \<or> calls_of w' = calls_of w @ [\<lparr>func = f, args = as, kwargs = kw\<rparr>])"
  by (auto simp: session_call_def split: option.splits outcome.splits)

lemma request_calls:
  assumes "request srv f as sleep kw w = (r, w')"
  shows "\<exists>n. calls_of w' = calls_of w @ replicate n \<lparr>func = f, args = as, kwargs = kw\<rparr>
             \<and> ((\<exists>x. r = Inr x) \<longrightarrow> 0 < n)"
proof -
  let ?c = "\<lparr>func = f, args = as, kwargs = kw\<rparr>"
  have rep: "calls_of w @ [?c] = calls_of w @ replicate 1 ?c"
    "calls_of w = calls_of w @ replicate 0 ?c"
    "calls_of w @ [?c, ?c] = calls_of w @ replicate 2 ?c"
    by (simp_all add: numeral_2_eq_2)
  obtain r1 w1 where c1: "session_call srv f as kw w = (r1, w1)"
    by (cases "session_call srv f as kw w")
  show ?thesis
  proof (cases r1)
    case (Inl e)
    with c1 assms have "r = Inl e" "w' = w1" by (auto simp: request_def)
    with session_call_calls [OF c1] Inl show ?thesis
      by (metis rep(1,2) sum.distinct(1))
  next
    case (Inr resp)
    with session_call_calls [OF c1] have k1: "calls_of w1 = calls_of w @ [?c]" by auto
    show ?thesis
    proof (cases "retry_after resp")
      case None
      with c1 Inr assms have "request_tail resp sleep w1 = (r, w')" by (simp add: request_def)
      from request_tail_calls [OF this] k1 show ?thesis
        by (intro exI [of _ 1]) simp
    next
      case (Some h)
      show ?thesis
      proof (cases "py_int h")
        case (Inl e)
        with Some c1 Inr assms k1 show ?thesis
          by (intro exI [of _ 1]) (auto simp: request_def)
      next
        case (Inr delay)
        show ?thesis
        proof (cases "real_of_int (delay + 1) < 0")
          case True
          with Inr Some c1 \<open>r1 = Inr resp\<close> assms k1 show ?thesis
            by (intro exI [of _ 1]) (auto simp: request_def time_sleep_def)
        next
          case False
          let ?w2 = "w1 @ [Sleep (real_of_int (delay + 1))]"
          obtain r3 w3 where c3: "session_call srv f as kw ?w2 = (r3, w3)"
            by (cases "session_call srv f as kw ?w2")
          show ?thesis
          proof (cases r3)
            case (Inl e)
            with c3 False Inr Some c1 \<open>r1 = Inr resp\<close> assms
            have "r = Inl e" "w' = w3" by (auto simp: request_def time_sleep_def)
            with session_call_calls [OF c3] k1 show ?thesis
              by (auto intro: exI [of _ 1] exI [of _ 2] simp: numeral_2_eq_2)
          next
            case (Inr resp2)
            with c3 False \<open>py_int h = Inr delay\<close> Some c1 \<open>r1 = Inr resp\<close> assms
            have t: "request_tail resp2 sleep w3 = (r, w')"
              by (simp add: request_def time_sleep_def)
            from session_call_calls [OF c3] Inr k1
            have "calls_of w3 = calls_of w @ [?c, ?c]" by auto
            with request_tail_calls [OF t] show ?thesis
              by (intro exI [of _ 2]) (simp add: numeral_2_eq_2)
          qed
        qed
      qed
    qed
  qed
qed

lemma get_json_attempt_calls:
  assumes "get_json_attempt srv as sleep kw w = (r, w')"
  shows "\<exists>n. calls_of w' = calls_of w @ replicate n \<lparr>func = SessionGet, args = as, kwargs = kw\<rparr>
             \<and> ((\<exists>x. r = Inr x) \<longrightarrow> 0 < n)"
proof -
  obtain r1 w1 where c: "request srv SessionGet as sleep kw w = (r1, w1)"
    by (cases "request srv SessionGet as sleep kw w")
  with assms have "w' = w1" "(\<exists>x. r = Inr x) \<longrightarrow> (\<exists>x. r1 = Inr x)"
    by (auto simp: get_json_attempt_def split: sum.splits)
  with request_calls [OF c] show ?thesis by auto
qed

lemma aio_session_get_calls:
  assumes "aio_session_get srv as kw w = (r, w')"
  shows "\<exists>n. calls_of w' = calls_of w @ replicate n \<lparr>func = SessionGet, args = as, kwargs = kw\<rparr>
             \<and> ((\<exists>x. r = Inr x) \<longrightarrow> n = 1 \<and> aio_call_error as kw = None)"
proof (cases "aio_call_error as kw")
  case (Some e)
  with assms have "w' = w" "r = Inl e" by (simp_all add: aio_session_get_def)
  then show ?thesis by (intro exI [of _ 0]) simp
next
  case None
  with assms have "calls_of w' = calls_of w @ [\<lparr>func = SessionGet, args = as, kwargs = kw\<rparr>]"
    by (auto simp: aio_session_get_def split: outcome.splits)
  with None show ?thesis by (intro exI [of _ 1]) simp
qed

lemma aio_tail_calls: "aio_tail resp sleep w = (r, w') \<Longrightarrow> calls_of w' = calls_of w"
  by (auto simp: aio_tail_def asyncio_sleep_def split: sum.splits)

lemma aio_get_json_attempt_calls:
  assumes "aio_get_json_attempt srv hdrs as endpoint sleep kw w = (r, w')"
  shows "\<exists>n. calls_of w' = calls_of w @
               replicate n \<lparr>func = SessionGet, args = PStr (API @ ''/'' @ endpoint) # as,
                  kwargs = (if ''headers'' \<in> set (map fst kw) then kw
                            else kw @ [(''headers'', hdrs)])\<rparr>
             \<and> ((\<exists>x. r = Inr x) \<longrightarrow> 0 < n)"
proof -
  let ?kw = "if ''headers'' \<in> set (map fst kw) then kw else kw @ [(''headers'', hdrs)]"
  let ?u = "PStr (API @ ''/'' @ endpoint)"
  let ?c = "\<lparr>func = SessionGet, args = ?u # as, kwargs = ?kw\<rparr>"
  obtain r1 w1 where f: "aio_session_get srv (?u # as) ?kw w = (r1, w1)"
    by (cases "aio_session_get srv (?u # as) ?kw w")
  from aio_session_get_calls [OF f] obtain n where
    n: "calls_of w1 = calls_of w @ replicate n ?c"
    and n1: "(\<exists>x. r1 = Inr x) \<longrightarrow> n = 1 \<and> aio_call_error (?u # as) ?kw = None"
    by blast
  show ?thesis
  proof (cases r1)
    case (Inl e)
    with assms f have "w' = w1" "r = Inl e"
      by (simp_all add: aio_get_json_attempt_def Let_def)
    with n show ?thesis by (intro exI [of _ n]) simp
  next
    case (Inr resp)
    with n1 have one: "n = 1" and ok: "aio_call_error (?u # as) ?kw = None" by simp_all
    from ok have "binds [''url''] aio_keywords (?u # as) ?kw"
      by (auto simp: aio_call_error_def split: if_splits)
    then have "as = [] \<and> ''url'' \<notin> set (map fst ?kw)" by (rule binds_url_first)
    then have as: "as = []" and "''url'' \<notin> set (map fst ?kw)"
      by (rule conjunct1, rule conjunct2)
    then have "aio_call_error [] ?kw = Some TypeError"
      by (simp add: aio_call_error_def binds_no_url)
    then have second: "aio_session_get srv [] ?kw u = (Inl TypeError, u)" for u
      by (simp add: aio_session_get_def)
    have "calls_of w' = calls_of w1"
    proof (cases "retry_after resp")
      case None
      with assms f Inr have "aio_tail resp sleep w1 = (r, w')"
        by (simp add: aio_get_json_attempt_def Let_def)
      then show ?thesis by (rule aio_tail_calls)
    next
      case (Some h)
      with assms f Inr as second show ?thesis
        by (auto simp: aio_get_json_attempt_def Let_def asyncio_sleep_def split: sum.splits)
    qed
    with n one show ?thesis by (intro exI [of _ 1]) simp
  qed
qed

lemma retrying_calls:
  assumes "\<And>u r u'. fn u = (r, u') \<Longrightarrow>
             \<exists>n. calls_of u' = calls_of u @ replicate n c \<and> ((\<exists>x. r = Inr x) \<longrightarrow> 0 < n)"
    and "retrying fn a w = (r, w')"
  shows "\<exists>n. calls_of w' = calls_of w @ replicate n c \<and> ((\<exists>x. r = Inr x) \<longrightarrow> 0 < n)"
  using assms
proof (induction fn a w arbitrary: r w' rule: retrying.induct)
  case (1 fn a w)
  note A = "1.prems"(1) and run = "1.prems"(2)
  obtain r1 w1 where f: "fn (w @ [Attempt a]) = (r1, w1)" by (cases "fn (w @ [Attempt a])")
  from A [OF f] obtain n1 where n1: "calls_of w1 = calls_of w @ replicate n1 c"
      "(\<exists>x. r1 = Inr x) \<longrightarrow> 0 < n1" by auto
  show ?case
  proof (cases r1)
    case (Inr x)
    with f run have "r = Inr x" "w' = w1" by (simp_all add: retrying.simps)
    with n1 Inr show ?thesis by auto
  next
    case (Inl e)
    show ?thesis
    proof (cases "retry_if_exception_type e \<and> \<not> stop_after_attempt 3 a")
      case False
      with Inl f run have "w' = w1" "\<exists>e'. r = Inl e'"
        by (auto simp: retrying.simps split: if_splits)
      with n1 show ?thesis by auto
    next
      case True
      let ?w2 = "w1 @ [Backoff (wait_exponential 2 15 60 a)]"
      from True Inl f run have rec: "retrying fn (a + 1) ?w2 = (r, w')"
        by (simp add: retrying.simps)
      from True have t1: "\<not> \<not> retry_if_exception_type e" "\<not> stop_after_attempt 3 a" by auto
      from "1.IH" [OF f [symmetric] Inl t1 A rec]
      obtain n2 where "calls_of w' = calls_of ?w2 @ replicate n2 c"
        "(\<exists>x. r = Inr x) \<longrightarrow> 0 < n2" by auto
      with n1 show ?thesis
        by (intro exI [of _ "n1 + n2"]) (simp add: replicate_add)
    qed
  qed
qed

lemma get_json_with_retries_calls:
  assumes "get_json_with_retries srv as sleep kw w = (r, w')"
  shows "\<exists>n. calls_of w' = calls_of w @ replicate n \<lparr>func = SessionGet, args = as, kwargs = kw\<rparr>
             \<and> ((\<exists>x. r = Inr x) \<longrightarrow> 0 < n)"
  using assms unfolding get_json_with_retries_def
  by (rule retrying_calls [rotated]) (rule get_json_attempt_calls)

lemma aio_get_json_with_retries_calls:
  assumes "aio_get_json_with_retries srv hdrs as endpoint sleep kw w = (r, w')"
  shows "\<exists>n. calls_of w' = calls_of w @
               replicate n \<lparr>func = SessionGet, args = PStr (API @ ''/'' @ endpoint) # as,
                  kwargs = (if ''headers'' \<in> set (map fst kw) then kw
                            else kw @ [(''headers'', hdrs)])\<rparr>
             \<and> ((\<exists>x. r = Inr x) \<longrightarrow> 0 < n)"
  using assms unfolding aio_get_json_with_retries_def
  by (rule retrying_calls [rotated]) (rule aio_get_json_attempt_calls)

lemma pages_loop_last_page:
  assumes "pages_loop fetch p ps acc u = Some y"
    and "\<And>qs v j v'. fetch qs v = (Inr j, v') \<Longrightarrow>
            calls_of v' \<noteq> [] \<and> requested_page (last (calls_of v')) = map_of qs ''page''"
    and "fst y = Inr data"
  shows "\<exists>k\<ge>p. fst (snd y) = AList.update ''page'' (PStr (str_nat k)) ps
            \<and> calls_of (snd (snd y)) \<noteq> []
            \<and> requested_page (last (calls_of (snd (snd y)))) = Some (PStr (str_nat k))"
  using assms
proof (induction fetch p ps acc u y arbitrary: data rule: pages_loop.raw_induct [rotated 1, consumes 1, case_names step])
  case (step pl fetch page params all_data w y)
  let ?ps = "AList.update ''page'' (PStr (str_nat page)) params"
  have G: "calls_of v' \<noteq> [] \<and> requested_page (last (calls_of v')) = map_of qs ''page''"
    if "fetch qs v = (Inr j, v')" for qs v j v'
    using that step by blast
  have y: "fst y = Inr data" using step by blast
  note eq = step(2)
  obtain r1 w1 where f: "fetch ?ps w = (r1, w1)" by (cases "fetch ?ps w")
  from eq f y obtain response where r1: "r1 = Inr response"
    by (cases r1) auto
  from eq f r1 y obtain all_data' where
    ex: "extend_results all_data response = Inr all_data'"
    by (cases "extend_results all_data response") auto
  from eq f r1 ex y obtain stop where lp: "last_page response = Inr stop"
    by (cases "last_page response") auto
  from G [OF f [unfolded r1]]
  have g: "calls_of w1 \<noteq> []" "requested_page (last (calls_of w1)) = Some (PStr (str_nat page))"
    by (simp_all add: update_conv')
  show ?case
  proof (cases stop)
    case True
    with eq f r1 ex lp have "y = (Inr all_data', ?ps, w1)" by simp
    with g show ?thesis by (intro exI [of _ page]) simp
  next
    case False
    with eq f r1 ex lp have rec: "pl fetch (page + 1) ?ps all_data' w1 = Some y" by simp
    have "\<exists>k\<ge>page + 1. fst (snd y) = AList.update ''page'' (PStr (str_nat k)) ?ps
            \<and> calls_of (snd (snd y)) \<noteq> []
            \<and> requested_page (last (calls_of (snd (snd y)))) = Some (PStr (str_nat k))"
      by (rule step(1) [OF rec _ y]) (rule G)
    then obtain k where "k \<ge> page + 1"
      "fst (snd y) = AList.update ''page'' (PStr (str_nat k)) ?ps"
      "calls_of (snd (snd y)) \<noteq> []"
      "requested_page (last (calls_of (snd (snd y)))) = Some (PStr (str_nat k))"
      by blast
    then show ?thesis by (intro exI [of _ k]) simp
  qed
qed

lemma page_fetch_last_call:
  assumes "page_fetch srv as endpoint sleep kw qs v = (Inr j, v')"
  shows "calls_of v' \<noteq> [] \<and> requested_page (last (calls_of v')) = map_of qs ''page''"
proof -
  from get_json_with_retries_calls [OF assms [unfolded page_fetch_def]] obtain n c where
    "calls_of v' = calls_of v @ replicate n c" "0 < n"
    "map_of (kwargs c) ''params'' = Some (PDict qs)"
    by auto
  then show ?thesis by (cases n) (simp_all add: requested_page_def)
qed

lemma aio_page_fetch_last_call:
  assumes "aio_page_fetch srv hdrs as endpoint sleep kw qs v = (Inr j, v')"
  shows "calls_of v' \<noteq> [] \<and> requested_page (last (calls_of v')) = map_of qs ''page''"
proof -
  from aio_get_json_with_retries_calls [OF assms [unfolded aio_page_fetch_def]] obtain n c where
    "calls_of v' = calls_of v @ replicate n c" "0 < n"
    "map_of (kwargs c) ''params'' = Some (PDict qs)"
    by (auto split: if_splits)
  then show ?thesis by (cases n) (simp_all add: requested_page_def)
qed


lemma two_pages_blocking:
  "get_all_pages two_pages [] ''solutions''
     (Some (PDict [(''track_slug'', PStr ''python''), (''page'', PStr ''7'')])) None [] []
   = Some (Inr [PStr ''a'', PStr ''b''],
       PDict [(''track_slug'', PStr ''python''), (''page'', PStr ''2'')],
       [Attempt 1,
        Call \<lparr>func = SessionGet, args = [PStr ''https://exercism.org/api/v2/solutions''],
              kwargs = [(''params'',
                PDict [(''track_slug'', PStr ''python''), (''page'', PStr ''1'')])]\<rparr>,
        Sleep 0.2,
        Attempt 1,
        Call \<lparr>func = SessionGet, args = [PStr ''https://exercism.org/api/v2/solutions''],
              kwargs = [(''params'',
                PDict [(''track_slug'', PStr ''python''), (''page'', PStr ''2'')])]\<rparr>,
        Sleep 0.2])"
  by (simp add: get_all_pages_def page_fetch_def pages_loop.simps get_json_with_retries_def
      get_json_attempt_def request_def session_call_def
      request_tail_def raise_for_status_def time_sleep_def call_defs resp_json_def
      retrying.simps API_def page_envelope_def extend_results_def last_page_def getitem_def
      py_iter_def py_ge_def as_number_def str_nat.simps digit_def two_pages_def ok_reply_def)

lemma two_pages_cooperative:
  "aio_get_all_pages two_pages (PDict []) [] ''solutions''
     (Some (PDict [(''track_slug'', PStr ''python''), (''page'', PStr ''7'')])) None [] []
   = Some (Inr [PStr ''a'', PStr ''b''],
       PDict [(''track_slug'', PStr ''python''), (''page'', PStr ''2'')],
       [Attempt 1,
        Call \<lparr>func = SessionGet, args = [PStr ''https://exercism.org/api/v2/solutions''],
              kwargs = [(''params'',
                PDict [(''track_slug'', PStr ''python''), (''page'', PStr ''1'')]),
                (''headers'', PDict [])]\<rparr>,
        Sleep 0.2,
        Attempt 1,
        Call \<lparr>func = SessionGet, args = [PStr ''https://exercism.org/api/v2/solutions''],
              kwargs = [(''params'',
                PDict [(''track_slug'', PStr ''python''), (''page'', PStr ''2'')]),
                (''headers'', PDict [])]\<rparr>,
        Sleep 0.2])"
  by (simp add: aio_get_all_pages_def aio_page_fetch_def pages_loop.simps
      aio_get_json_with_retries_def aio_get_json_attempt_def aio_session_get_def aio_call_defs aio_tail_def
      aio_raise_for_status_def asyncio_sleep_def resp_json_def
      retrying.simps API_def page_envelope_def extend_results_def last_page_def getitem_def
      py_iter_def py_ge_def as_number_def str_nat.simps digit_def two_pages_def ok_reply_def)


section \<open>Failures in one-shot operations\<close>

lemma pages_reach_loop:
  assumes "pages_reach fetch c c'"
  shows "(case c of (p, ps, a, w) \<Rightarrow> pages_loop fetch p ps a w) =
         (case c' of (p, ps, a, w) \<Rightarrow> pages_loop fetch p ps a w)"
  using assms
proof (induction rule: pages_reach.induct)
  case (start c)
  show ?case ..
next
  case (next_page c page params all_data w response w1 all_data')
  have "pages_loop fetch page params all_data w =
          pages_loop fetch (page + 1) (AList.update ''page'' (PStr (str_nat page)) params)
            all_data' w1"
    by (subst pages_loop.simps) (simp add: next_page.hyps)
  with next_page.IH show ?case by simp
qed

lemma pages_loop_fetch_fails:
  assumes "pages_reach fetch (p0, d, a0, w) (page, params, all_data, u)"
    and "fetch (AList.update ''page'' (PStr (str_nat page)) params) u = (Inl e, u')"
  shows "pages_loop fetch p0 d a0 w =
           Some (Inl e, AList.update ''page'' (PStr (str_nat page)) params, u')"
proof -
  have "pages_loop fetch p0 d a0 w = pages_loop fetch page params all_data u"
    using pages_reach_loop [OF assms(1)] by simp
  also have "\<dots> = Some (Inl e, AList.update ''page'' (PStr (str_nat page)) params, u')"
    by (subst pages_loop.simps) (simp add: assms(2))
  finally show ?thesis .
qed

lemma for_each_append:
  "for_each stmt (xs @ ys) acc w =
     (case for_each stmt xs acc w of
        (Inl e, w') \<Rightarrow> (Inl e, w')
      | (Inr a, w') \<Rightarrow> for_each stmt ys a w')"
  by (induction xs arbitrary: acc w) (auto split: prod.splits sum.splits)

lemma for_each_fails:
  assumes "for_each stmt pre acc w = (Inr a, w1)" and "stmt x a w1 = (Inl e, w2)"
  shows "for_each stmt (pre @ x # rest) acc w = (Inl e, w2)"
  using assms by (simp add: for_each_append)

lemma old_mentor_discussions_unfold:
  assumes "order \<in> {''oldest'', ''recent'', ''exercise'', ''student''}"
    and "status \<in> {''awaiting_mentor'', ''awaiting_student'', ''finished''}"
    and "get_json_with_retries srv [PStr (API @ ''/mentoring/discussions'')] 0.2
           [(''params'', PDict [(''status'', PStr status), (''order'', PStr order)])] w
         = (Inr resp, w1)"
    and "getitem resp ''meta'' = Inr m" and "getitem m ''total_pages'' = Inr pc"
    and "as_number pc = Some page_count"
  shows "old_mentor_discussions srv py_str strptime now status age order w =
           (case for_each (check_page srv py_str strptime (now - age * day)) [1..page_count]
                   ([(''status'', PStr status), (''order'', PStr order)], []) w1 of
              (Inl e, w2) \<Rightarrow> (Inl e, w2)
            | (Inr st, w2) \<Rightarrow> (Inr (snd st), w2))"
  using assms by (simp add: old_mentor_discussions_def)

lemma upto_split_at:
  assumes "1 \<le> p" and "p \<le> n"
  shows "[1..n] = [1..p - 1] @ p # [p + 1..n]"
  using assms by (rule upto_split3)

text \<open>
  Claim C8. A fetch that fails ends the operation with the exception of the fetch, whatever
  had been accumulated before:
  \<^item> in both \<^verbatim>\<open>get_all_pages\<close> methods, the fetch of any page, after any number of
    pages that were fetched and added;
  \<^item> in \<^verbatim>\<open>update_exercises\<close>, the pagination, or the \<^verbatim>\<open>PATCH\<close> of any solution that is
    out of date, after any number of solutions that were dealt with;
  \<^item> in \<^verbatim>\<open>old_mentor_discussions\<close>, the first fetch, the fetch of any page after any
    number of pages, or the fetch of the posts of any discussion that is old enough,
    after any number of pages and of discussions of the page.
  The result of the operation is then \<open>Inl e\<close>: no list is returned.
\<close>

theorem one_shot_operations_abort_on_failure:
  "(pages_reach (page_fetch srv as endpoint sleep kw) (1, d, [], w) (page, params, all_data, u) \<longrightarrow>
    page_fetch srv as endpoint sleep kw (AList.update ''page'' (PStr (str_nat page)) params) u
      = (Inl e, u') \<longrightarrow>
    get_all_pages srv as endpoint (Some (PDict d)) sleep kw w
      = Some (Inl e, PDict (AList.update ''page'' (PStr (str_nat page)) params), u'))
   \<and>
   (pages_reach (aio_page_fetch srv hdrs as endpoint sleep kw) (1, d, [], w)
      (page, params, all_data, u) \<longrightarrow>
    aio_page_fetch srv hdrs as endpoint sleep kw
      (AList.update ''page'' (PStr (str_nat page)) params) u = (Inl e, u') \<longrightarrow>
    aio_get_all_pages srv hdrs as endpoint (Some (PDict d)) sleep kw w
      = Some (Inl e, PDict (AList.update ''page'' (PStr (str_nat page)) params), u'))
   \<and>
   (get_all_pages srv [] ''solutions'' None None [] w = Some (Inl e, p, w1) \<longrightarrow>
    update_exercises srv py_str w = Some (Inl e, w1))
   \<and>
   (get_all_pages srv [] ''solutions'' None None [] w = Some (Inr (pre @ s # rest), p, w1) \<longrightarrow>
    for_each (sync_solution srv py_str) pre [] w1 = (Inr ups, w2) \<longrightarrow>
    getitem s ''is_out_of_date'' = Inr b \<longrightarrow> truthy b \<longrightarrow> getitem s ''uuid'' = Inr uuid \<longrightarrow>
    patch srv [PStr (API @ ''/solutions/'' @ fstr py_str uuid @ ''/sync'')] 0.5 [] w2
      = (Inl e, w3) \<longrightarrow>
    update_exercises srv py_str w = Some (Inl e, w3))
   \<and>
   (order \<in> {''oldest'', ''recent'', ''exercise'', ''student''} \<longrightarrow>
    status \<in> {''awaiting_mentor'', ''awaiting_student'', ''finished''} \<longrightarrow>
    get_json_with_retries srv [PStr (API @ ''/mentoring/discussions'')] 0.2
      [(''params'', PDict [(''status'', PStr status), (''order'', PStr order)])] w
      = (Inl e, w1) \<longrightarrow>
    old_mentor_discussions srv py_str strptime now status age order w = (Inl e, w1))
   \<and>
   (order \<in> {''oldest'', ''recent'', ''exercise'', ''student''} \<longrightarrow>
    status \<in> {''awaiting_mentor'', ''awaiting_student'', ''finished''} \<longrightarrow>
    get_json_with_retries srv [PStr (API @ ''/mentoring/discussions'')] 0.2
      [(''params'', PDict [(''status'', PStr status), (''order'', PStr order)])] w
      = (Inr resp, w1) \<longrightarrow>
    getitem resp ''meta'' = Inr m \<longrightarrow> getitem m ''total_pages'' = Inr pc \<longrightarrow>
    as_number pc = Some page_count \<longrightarrow> 1 \<le> pg \<longrightarrow> pg \<le> page_count \<longrightarrow>
    for_each (check_page srv py_str strptime (now - age * day)) [1..pg - 1]
      ([(''status'', PStr status), (''order'', PStr order)], []) w1 = (Inr st, w2) \<longrightarrow>
    get_json_with_retries srv [PStr (API @ ''/mentoring/discussions'')] 0.2
      [(''params'', PDict (AList.update ''page'' (PInt pg) (fst st)))] w2 = (Inl e, w3) \<longrightarrow>
    old_mentor_discussions srv py_str strptime now status age order w = (Inl e, w3))
   \<and>
   (order \<in> {''oldest'', ''recent'', ''exercise'', ''student''} \<longrightarrow>
    status \<in> {''awaiting_mentor'', ''awaiting_student'', ''finished''} \<longrightarrow>
    get_json_with_retries srv [PStr (API @ ''/mentoring/discussions'')] 0.2
      [(''params'', PDict [(''status'', PStr status), (''order'', PStr order)])] w
      = (Inr resp, w1) \<longrightarrow>
    getitem resp ''meta'' = Inr m \<longrightarrow> getitem m ''total_pages'' = Inr pc \<longrightarrow>
    as_number pc = Some page_count \<longrightarrow> 1 \<le> pg \<longrightarrow> pg \<le> page_count \<longrightarrow>
    for_each (check_page srv py_str strptime (now - age * day)) [1..pg - 1]
      ([(''status'', PStr status), (''order'', PStr order)], []) w1 = (Inr st, w2) \<longrightarrow>
    get_json_with_retries srv [PStr (API @ ''/mentoring/discussions'')] 0.2
      [(''params'', PDict (AList.update ''page'' (PInt pg) (fst st)))] w2 = (Inr rp, w3) \<longrightarrow>
    getitem rp ''results'' = Inr results \<longrightarrow> py_iter results = Inr (dpre @ dsc # drest) \<longrightarrow>
    for_each (check_discussion srv py_str strptime (now - age * day)) dpre (snd st) w3
      = (Inr us, w4) \<longrightarrow>
    getitem dsc ''updated_at'' = Inr ts \<longrightarrow> py_strptime strptime ts = Inr t \<longrightarrow>
    t \<le> now - age * day \<longrightarrow> getitem dsc ''uuid'' = Inr uuid \<longrightarrow>
    get_json_with_retries srv
      [PStr (API @ ''/mentoring/discussions/'' @ fstr py_str uuid @ ''/posts'')] 0.2 [] w4
      = (Inl e, w5) \<longrightarrow>
    old_mentor_discussions srv py_str strptime now status age order w = (Inl e, w5))"
proof (intro conjI impI)
  assume "pages_reach (page_fetch srv as endpoint sleep kw) (1, d, [], w) (page, params, all_data, u)"
    and "page_fetch srv as endpoint sleep kw (AList.update ''page'' (PStr (str_nat page)) params) u
      = (Inl e, u')"
  from pages_loop_fetch_fails [OF this]
  show "get_all_pages srv as endpoint (Some (PDict d)) sleep kw w
      = Some (Inl e, PDict (AList.update ''page'' (PStr (str_nat page)) params), u')"
    by (simp add: get_all_pages_def)
next
  assume "pages_reach (aio_page_fetch srv hdrs as endpoint sleep kw) (1, d, [], w)
      (page, params, all_data, u)"
    and "aio_page_fetch srv hdrs as endpoint sleep kw
      (AList.update ''page'' (PStr (str_nat page)) params) u = (Inl e, u')"
  from pages_loop_fetch_fails [OF this]
  show "aio_get_all_pages srv hdrs as endpoint (Some (PDict d)) sleep kw w
      = Some (Inl e, PDict (AList.update ''page'' (PStr (str_nat page)) params), u')"
    by (simp add: aio_get_all_pages_def)
next
  assume "get_all_pages srv [] ''solutions'' None None [] w = Some (Inl e, p, w1)"
  then show "update_exercises srv py_str w = Some (Inl e, w1)"
    by (simp add: update_exercises_def)
next
  assume pages: "get_all_pages srv [] ''solutions'' None None [] w
                   = Some (Inr (pre @ s # rest), p, w1)"
    and pre: "for_each (sync_solution srv py_str) pre [] w1 = (Inr ups, w2)"
    and s: "getitem s ''is_out_of_date'' = Inr b" "truthy b" "getitem s ''uuid'' = Inr uuid"
    and f: "patch srv [PStr (API @ ''/solutions/'' @ fstr py_str uuid @ ''/sync'')] 0.5 [] w2
             = (Inl e, w3)"
  have "sync_solution srv py_str s ups w2 = (Inl e, w3)"
    using s f by (simp add: sync_solution_def)
  from for_each_fails [OF pre this] pages
  show "update_exercises srv py_str w = Some (Inl e, w3)"
    by (simp add: update_exercises_def)
next
  assume "order \<in> {''oldest'', ''recent'', ''exercise'', ''student''}"
    and "status \<in> {''awaiting_mentor'', ''awaiting_student'', ''finished''}"
    and "get_json_with_retries srv [PStr (API @ ''/mentoring/discussions'')] 0.2
      [(''params'', PDict [(''status'', PStr status), (''order'', PStr order)])] w
      = (Inl e, w1)"
  then show "old_mentor_discussions srv py_str strptime now status age order w = (Inl e, w1)"
    by (simp add: old_mentor_discussions_def)
next
  assume v: "order \<in> {''oldest'', ''recent'', ''exercise'', ''student''}"
      "status \<in> {''awaiting_mentor'', ''awaiting_student'', ''finished''}"
    and probe: "get_json_with_retries srv [PStr (API @ ''/mentoring/discussions'')] 0.2
      [(''params'', PDict [(''status'', PStr status), (''order'', PStr order)])] w
      = (Inr resp, w1)"
      "getitem resp ''meta'' = Inr m" "getitem m ''total_pages'' = Inr pc"
      "as_number pc = Some page_count"
    and pg: "1 \<le> pg" "pg \<le> page_count"
    and pre: "for_each (check_page srv py_str strptime (now - age * day)) [1..pg - 1]
      ([(''status'', PStr status), (''order'', PStr order)], []) w1 = (Inr st, w2)"
    and f: "get_json_with_retries srv [PStr (API @ ''/mentoring/discussions'')] 0.2
      [(''params'', PDict (AList.update ''page'' (PInt pg) (fst st)))] w2 = (Inl e, w3)"
  have "check_page srv py_str strptime (now - age * day) pg st w2 = (Inl e, w3)"
    using f by (simp add: check_page_def)
  from for_each_fails [OF pre this]
  show "old_mentor_discussions srv py_str strptime now status age order w = (Inl e, w3)"
    unfolding old_mentor_discussions_unfold [OF v probe] upto_split_at [OF pg] by simp
next
  assume v: "order \<in> {''oldest'', ''recent'', ''exercise'', ''student''}"
      "status \<in> {''awaiting_mentor'', ''awaiting_student'', ''finished''}"
    and probe: "get_json_with_retries srv [PStr (API @ ''/mentoring/discussions'')] 0.2
      [(''params'', PDict [(''status'', PStr status), (''order'', PStr order)])] w
      = (Inr resp, w1)"
      "getitem resp ''meta'' = Inr m" "getitem m ''total_pages'' = Inr pc"
      "as_number pc = Some page_count"
    and pg: "1 \<le> pg" "pg \<le> page_count"
    and pre: "for_each (check_page srv py_str strptime (now - age * day)) [1..pg - 1]
      ([(''status'', PStr status), (''order'', PStr order)], []) w1 = (Inr st, w2)"
    and f: "get_json_with_retries srv [PStr (API @ ''/mentoring/discussions'')] 0.2
      [(''params'', PDict (AList.update ''page'' (PInt pg) (fst st)))] w2 = (Inr rp, w3)"
      "getitem rp ''results'' = Inr results" "py_iter results = Inr (dpre @ dsc # drest)"
    and dpre: "for_each (check_discussion srv py_str strptime (now - age * day)) dpre (snd st) w3
      = (Inr us, w4)"
    and dsc: "getitem dsc ''updated_at'' = Inr ts" "py_strptime strptime ts = Inr t"
      "t \<le> now - age * day" "getitem dsc ''uuid'' = Inr uuid"
    and g: "get_json_with_retries srv
      [PStr (API @ ''/mentoring/discussions/'' @ fstr py_str uuid @ ''/posts'')] 0.2 [] w4
      = (Inl e, w5)"
  have "check_discussion srv py_str strptime (now - age * day) dsc us w4 = (Inl e, w5)"
    using dsc g by (simp add: check_discussion_def)
  from for_each_fails [OF dpre this]
  have "check_page srv py_str strptime (now - age * day) pg st w2 = (Inl e, w5)"
    using f by (simp add: check_page_def)
  from for_each_fails [OF pre this]
  show "old_mentor_discussions srv py_str strptime now status age order w = (Inl e, w5)"
    unfolding old_mentor_discussions_unfold [OF v probe] upto_split_at [OF pg] by simp
qed

text \<open>The server \<^const>\<open>up_for\<close>: fetches while it is up, and once it is down.\<close>

lemma up_for_fetch_ok:
  assumes "length (calls_of u) < k" and "0 \<le> s" and "call_error SessionGet [a] kw = None"
  shows "get_json_with_retries (up_for k j) [a] s kw u =
           (Inr j, u @ [Attempt 1, Call \<lparr>func = SessionGet, args = [a], kwargs = kw\<rparr>, Sleep s])"
  by (rule get_json_with_retries_ok [where resp = "\<lparr>retry_after = None, status_code = 200, body = Some j\<rparr>"])
     (use assms in \<open>simp_all add: up_for_def ok_reply_def\<close>)

lemma up_for_fetch_down:
  assumes "k \<le> length (calls_of u)" and "call_error SessionGet [a] kw = None"
  shows "\<exists>u'. get_json_with_retries (up_for k j) [a] s kw u = (Inl (RetryError (HTTPError 503)), u')"
  using assms unfolding get_json_with_retries_def retrying_three_attempts
  by (simp add: get_json_attempt_def
      request_def session_call_def request_tail_def raise_for_status_def
      up_for_def status_reply_def retry_if_exception_type_def)

lemma up_for_aio_fetch_ok:
  assumes "length (calls_of u) < k"
    and "aio_call_error [PStr (API @ ''/'' @ endpoint)]
           (if ''headers'' \<in> set (map fst kw) then kw else kw @ [(''headers'', hdrs)]) = None"
  shows "aio_get_json_with_retries (up_for k j) hdrs [] endpoint s kw u =
           (Inr j, u @ [Attempt 1,
              Call \<lparr>func = SessionGet, args = [PStr (API @ ''/'' @ endpoint)],
                    kwargs = (if ''headers'' \<in> set (map fst kw) then kw
                              else kw @ [(''headers'', hdrs)])\<rparr>,
              Sleep (max 0 s)])"
  using aio_get_json_with_retries_ok [where resp = "\<lparr>retry_after = None, status_code = 200, body = Some j\<rparr>"
      and srv = "up_for k j" and w = u and j = j and sleep = s and kw = kw and hdrs = hdrs
      and endpoint = endpoint] assms
  by (simp add: up_for_def ok_reply_def)

lemma up_for_aio_fetch_down:
  assumes "k \<le> length (calls_of u)"
    and "aio_call_error [PStr (API @ ''/'' @ endpoint)]
           (if ''headers'' \<in> set (map fst kw) then kw else kw @ [(''headers'', hdrs)]) = None"
  shows "\<exists>u'. aio_get_json_with_retries (up_for k j) hdrs [] endpoint s kw u =
           (Inl (ClientResponseError 503), u')"
  using assms unfolding aio_get_json_with_retries_def retrying_three_attempts
  by (simp add: aio_get_json_attempt_def
      aio_session_get_def aio_tail_def aio_raise_for_status_def Let_def
      up_for_def status_reply_def retry_if_exception_type_def)

lemma up_for_patch_down:
  assumes "k \<le> length (calls_of u)" and "call_error SessionPatch [a] kw = None"
  shows "\<exists>u'. patch (up_for k j) [a] s kw u = (Inl (HTTPError 503), u')"
  using assms
  by (simp add: patch_def request_def session_call_def request_tail_def
      raise_for_status_def up_for_def status_reply_def)

theorem one_shot_operations_abort_on_failure_witness:
  "(\<exists>p u'. get_all_pages (up_for 1 (page_envelope [PStr ''a''] 1 2)) [] ''solutions''
              (Some (PDict [])) None [] []
            = Some (Inl (RetryError (HTTPError 503)), p, u'))
   \<and> (\<exists>p u'. aio_get_all_pages (up_for 1 (page_envelope [PStr ''a''] 1 2)) (PDict []) []
              ''solutions'' (Some (PDict [])) None [] []
            = Some (Inl (ClientResponseError 503), p, u'))
   \<and> (\<exists>u'. update_exercises always_503 (\<lambda>v. ''?'') []
            = Some (Inl (RetryError (HTTPError 503)), u'))
   \<and> (\<exists>u'. update_exercises
              (up_for 1 (page_envelope
                 [PDict [(''uuid'', PStr ''s1''), (''is_out_of_date'', PBool False)],
                  PDict [(''uuid'', PStr ''s2''), (''is_out_of_date'', PBool True)]] 1 1))
              (\<lambda>v. ''?'') []
            = Some (Inl (HTTPError 503), u'))
   \<and> (\<exists>u'. old_mentor_discussions always_503 (\<lambda>v. ''?'') (\<lambda>s. Inr 0) (31 * day)
              ''awaiting_student'' 30 ''oldest'' []
            = (Inl (RetryError (HTTPError 503)), u'))
   \<and> (\<exists>u'. old_mentor_discussions (up_for 1 (page_envelope [] 1 1)) (\<lambda>v. ''?'') (\<lambda>s. Inr 0)
              (31 * day) ''awaiting_student'' 30 ''oldest'' []
            = (Inl (RetryError (HTTPError 503)), u'))
   \<and> (\<exists>u'. old_mentor_discussions
              (up_for 2 (page_envelope
                 [PDict [(''uuid'', PStr ''d1''), (''updated_at'', PStr ''2024-01-01T00:00:00Z'')]]
                 1 1))
              (\<lambda>v. ''?'') (\<lambda>s. Inr 0) (31 * day) ''awaiting_student'' 30 ''oldest'' []
            = (Inl (RetryError (HTTPError 503)), u'))"
proof (intro conjI)
  \<comment> \<open>pagination, blocking\<close>
  let ?srv = "up_for 1 (page_envelope [PStr ''a''] 1 2)"
  let ?F = "page_fetch ?srv [] ''solutions'' None []"
  let ?w1 = "[] @ [Attempt 1,
      Call \<lparr>func = SessionGet, args = [PStr (API @ ''/'' @ ''solutions'')],
            kwargs = [(''params'', PDict (AList.update ''page'' (PStr (str_nat 1)) []))]\<rparr>,
      Sleep 0.2]"
  have f1: "?F (AList.update ''page'' (PStr (str_nat 1)) []) [] =
              (Inr (page_envelope [PStr ''a''] 1 2), ?w1)"
    unfolding page_fetch_def by (simp add: up_for_fetch_ok)
  have reach: "pages_reach ?F (1, [], [], [])
                 (1 + 1, AList.update ''page'' (PStr (str_nat 1)) [], [PStr ''a''], ?w1)"
    by (rule pages_reach.next_page [where fetch = ?F and c = "(1, [], [], [])" and page = 1
          and params = "[]" and all_data = "[]" and w = "[]", OF pages_reach.start f1])
       (simp_all add: extend_results_def last_page_def page_envelope_def getitem_def py_iter_def
          py_ge_def as_number_def)
  have "\<exists>u'. ?F (AList.update ''page'' (PStr (str_nat (1 + 1)))
                          (AList.update ''page'' (PStr (str_nat 1)) [])) ?w1
                       = (Inl (RetryError (HTTPError 503)), u')"
    unfolding page_fetch_def by (rule up_for_fetch_down) simp_all
  then obtain u' where f2: "?F (AList.update ''page'' (PStr (str_nat (1 + 1)))
                          (AList.update ''page'' (PStr (str_nat 1)) [])) ?w1
                       = (Inl (RetryError (HTTPError 503)), u')"
    by blast
  from one_shot_operations_abort_on_failure [THEN conjunct1, rule_format, OF reach f2]
  show "\<exists>p u'. get_all_pages ?srv [] ''solutions'' (Some (PDict [])) None [] []
            = Some (Inl (RetryError (HTTPError 503)), p, u')"
    by blast
next
  \<comment> \<open>pagination, cooperative\<close>
  let ?srv = "up_for 1 (page_envelope [PStr ''a''] 1 2)"
  let ?F = "aio_page_fetch ?srv (PDict []) [] ''solutions'' None []"
  let ?w1 = "[] @ [Attempt 1,
      Call \<lparr>func = SessionGet, args = [PStr (API @ ''/'' @ ''solutions'')],
            kwargs = [(''params'', PDict (AList.update ''page'' (PStr (str_nat 1)) [])),
                      (''headers'', PDict [])]\<rparr>,
      Sleep 0.2]"
  have f1: "?F (AList.update ''page'' (PStr (str_nat 1)) []) [] =
              (Inr (page_envelope [PStr ''a''] 1 2), ?w1)"
    unfolding aio_page_fetch_def
    by (simp add: up_for_aio_fetch_ok aio_call_error_params query_value_def query_var_def)
  have reach: "pages_reach ?F (1, [], [], [])
                 (1 + 1, AList.update ''page'' (PStr (str_nat 1)) [], [PStr ''a''], ?w1)"
    by (rule pages_reach.next_page [where fetch = ?F and c = "(1, [], [], [])" and page = 1
          and params = "[]" and all_data = "[]" and w = "[]", OF pages_reach.start f1])
       (simp_all add: extend_results_def last_page_def page_envelope_def getitem_def py_iter_def
          py_ge_def as_number_def)
  have "\<exists>u'. ?F (AList.update ''page'' (PStr (str_nat (1 + 1)))
                          (AList.update ''page'' (PStr (str_nat 1)) [])) ?w1
                       = (Inl (ClientResponseError 503), u')"
    unfolding aio_page_fetch_def
    by (rule up_for_aio_fetch_down)
       (simp_all add: aio_call_error_params query_value_def query_var_def)
  then obtain u' where f2: "?F (AList.update ''page'' (PStr (str_nat (1 + 1)))
                          (AList.update ''page'' (PStr (str_nat 1)) [])) ?w1
                       = (Inl (ClientResponseError 503), u')"
    by blast
  from one_shot_operations_abort_on_failure
         [THEN conjunct2, THEN conjunct1, rule_format, OF reach f2]
  show "\<exists>p u'. aio_get_all_pages ?srv (PDict []) [] ''solutions'' (Some (PDict [])) None [] []
            = Some (Inl (ClientResponseError 503), p, u')"
    by blast
next
  \<comment> \<open>sync: the pages cannot be fetched\<close>
  have a: "always_503 = up_for 0 PNone"
    by (simp add: fun_eq_iff always_503_def up_for_def)
  have "\<exists>u'. page_fetch always_503 [] ''solutions'' None []
                     (AList.update ''page'' (PStr (str_nat 1)) []) []
                   = (Inl (RetryError (HTTPError 503)), u')"
    unfolding page_fetch_def a by (rule up_for_fetch_down) simp_all
  then obtain u' where f: "page_fetch always_503 [] ''solutions'' None []
                     (AList.update ''page'' (PStr (str_nat 1)) []) []
                   = (Inl (RetryError (HTTPError 503)), u')"
    by blast
  from f have "get_all_pages always_503 [] ''solutions'' None None [] []
               = Some (Inl (RetryError (HTTPError 503)),
                       PDict (AList.update ''page'' (PStr (str_nat 1)) []), u')"
    by (simp add: get_all_pages_def pages_loop.simps)
  from one_shot_operations_abort_on_failure
         [THEN conjunct2, THEN conjunct2, THEN conjunct1, rule_format, OF this]
  show "\<exists>u'. update_exercises always_503 (\<lambda>v. ''?'') []
            = Some (Inl (RetryError (HTTPError 503)), u')"
    by blast
next
  \<comment> \<open>sync: the patch of the second solution fails\<close>
  let ?s1 = "PDict [(''uuid'', PStr ''s1''), (''is_out_of_date'', PBool False)]"
  let ?s2 = "PDict [(''uuid'', PStr ''s2''), (''is_out_of_date'', PBool True)]"
  let ?srv = "up_for 1 (page_envelope [?s1, ?s2] 1 1)"
  let ?w1 = "[] @ [Attempt 1,
      Call \<lparr>func = SessionGet, args = [PStr (API @ ''/'' @ ''solutions'')],
            kwargs = [(''params'', PDict (AList.update ''page'' (PStr (str_nat 1)) []))]\<rparr>,
      Sleep 0.2]"
  have "page_fetch ?srv [] ''solutions'' None [] (AList.update ''page'' (PStr (str_nat 1)) []) []
          = (Inr (page_envelope [?s1, ?s2] 1 1), ?w1)"
    unfolding page_fetch_def by (simp add: up_for_fetch_ok)
  then have pages: "get_all_pages ?srv [] ''solutions'' None None [] []
               = Some (Inr ([?s1] @ ?s2 # []),
                       PDict (AList.update ''page'' (PStr (str_nat 1)) []), ?w1)"
    by (simp add: get_all_pages_def pages_loop.simps extend_results_def last_page_def
        page_envelope_def getitem_def py_iter_def py_ge_def as_number_def)
  have pre: "for_each (sync_solution ?srv (\<lambda>v. ''?'')) [?s1] [] ?w1 = (Inr [], ?w1)"
    by (simp add: sync_solution_def getitem_def truthy_def)
  have "\<exists>u'. patch ?srv [PStr (API @ ''/solutions/'' @ fstr (\<lambda>v. ''?'') (PStr ''s2'') @ ''/sync'')]
                        0.5 [] ?w1 = (Inl (HTTPError 503), u')"
    by (rule up_for_patch_down) simp_all
  then obtain u' where f: "patch ?srv [PStr (API @ ''/solutions/'' @ fstr (\<lambda>v. ''?'') (PStr ''s2'') @ ''/sync'')]
                        0.5 [] ?w1 = (Inl (HTTPError 503), u')"
    by blast
  from one_shot_operations_abort_on_failure
         [THEN conjunct2, THEN conjunct2, THEN conjunct2, THEN conjunct1, rule_format,
          OF pages pre _ _ _ f, of "PBool True"]
  show "\<exists>u'. update_exercises ?srv (\<lambda>v. ''?'') [] = Some (Inl (HTTPError 503), u')"
    by (simp add: getitem_def truthy_def)
next
  \<comment> \<open>old discussions: the first fetch fails\<close>
  have a: "always_503 = up_for 0 PNone"
    by (simp add: fun_eq_iff always_503_def up_for_def)
  have "\<exists>u'. get_json_with_retries always_503 [PStr (API @ ''/mentoring/discussions'')] 0.2
      [(''params'', PDict [(''status'', PStr ''awaiting_student''), (''order'', PStr ''oldest'')])] []
      = (Inl (RetryError (HTTPError 503)), u')"
    unfolding a by (rule up_for_fetch_down) simp_all
  then obtain u' where f: "get_json_with_retries always_503 [PStr (API @ ''/mentoring/discussions'')] 0.2
      [(''params'', PDict [(''status'', PStr ''awaiting_student''), (''order'', PStr ''oldest'')])] []
      = (Inl (RetryError (HTTPError 503)), u')"
    by blast
  from one_shot_operations_abort_on_failure
         [THEN conjunct2, THEN conjunct2, THEN conjunct2, THEN conjunct2, THEN conjunct1,
          rule_format, OF _ _ f]
  show "\<exists>u'. old_mentor_discussions always_503 (\<lambda>v. ''?'') (\<lambda>s. Inr 0) (31 * day)
              ''awaiting_student'' 30 ''oldest'' []
            = (Inl (RetryError (HTTPError 503)), u')"
    by simp
next
  \<comment> \<open>old discussions: the fetch of page 1 fails\<close>
  let ?srv = "up_for 1 (page_envelope [] 1 1)"
  let ?ps = "[(''status'', PStr ''awaiting_student''), (''order'', PStr ''oldest'')]"
  let ?w1 = "[] @ [Attempt 1,
      Call \<lparr>func = SessionGet, args = [PStr (API @ ''/mentoring/discussions'')],
            kwargs = [(''params'', PDict ?ps)]\<rparr>,
      Sleep 0.2]"
  have probe: "get_json_with_retries ?srv [PStr (API @ ''/mentoring/discussions'')] 0.2
      [(''params'', PDict ?ps)] [] = (Inr (page_envelope [] 1 1), ?w1)"
    by (simp add: up_for_fetch_ok)
  have pre: "for_each (check_page ?srv (\<lambda>v. ''?'') (\<lambda>s. Inr 0) (31 * day - 30 * day)) [1..1 - 1]
      (?ps, []) ?w1 = (Inr (?ps, []), ?w1)"
    by simp
  have "\<exists>u'. get_json_with_retries ?srv [PStr (API @ ''/mentoring/discussions'')] 0.2
      [(''params'', PDict (AList.update ''page'' (PInt 1) (fst (?ps, []::pyval list))))] ?w1
      = (Inl (RetryError (HTTPError 503)), u')"
    by (rule up_for_fetch_down) simp_all
  then obtain u' where f: "get_json_with_retries ?srv [PStr (API @ ''/mentoring/discussions'')] 0.2
      [(''params'', PDict (AList.update ''page'' (PInt 1) (fst (?ps, []::pyval list))))] ?w1
      = (Inl (RetryError (HTTPError 503)), u')"
    by blast
  from one_shot_operations_abort_on_failure
         [THEN conjunct2, THEN conjunct2, THEN conjunct2, THEN conjunct2, THEN conjunct2,
          THEN conjunct1, rule_format, OF _ _ probe _ _ _ _ _ pre f,
          of "PDict [(''current_page'', PInt 1), (''total_pages'', PInt 1)]" "PInt 1" 1]
  show "\<exists>u'. old_mentor_discussions ?srv (\<lambda>v. ''?'') (\<lambda>s. Inr 0) (31 * day)
              ''awaiting_student'' 30 ''oldest'' []
            = (Inl (RetryError (HTTPError 503)), u')"
    by (simp add: page_envelope_def getitem_def as_number_def)
next
  \<comment> \<open>old discussions: the fetch of the posts of a discussion fails\<close>
  let ?d1 = "PDict [(''uuid'', PStr ''d1''), (''updated_at'', PStr ''2024-01-01T00:00:00Z'')]"
  let ?srv = "up_for 2 (page_envelope [?d1] 1 1)"
  let ?ps = "[(''status'', PStr ''awaiting_student''), (''order'', PStr ''oldest'')]"
  let ?w1 = "[] @ [Attempt 1,
      Call \<lparr>func = SessionGet, args = [PStr (API @ ''/mentoring/discussions'')],
            kwargs = [(''params'', PDict ?ps)]\<rparr>,
      Sleep 0.2]"
  let ?w3 = "?w1 @ [Attempt 1,
      Call \<lparr>func = SessionGet, args = [PStr (API @ ''/mentoring/discussions'')],
            kwargs = [(''params'', PDict (AList.update ''page'' (PInt 1) (fst (?ps, []::pyval list))))]\<rparr>,
      Sleep 0.2]"
  have probe: "get_json_with_retries ?srv [PStr (API @ ''/mentoring/discussions'')] 0.2
      [(''params'', PDict ?ps)] [] = (Inr (page_envelope [?d1] 1 1), ?w1)"
    by (simp add: up_for_fetch_ok)
  have pre: "for_each (check_page ?srv (\<lambda>v. ''?'') (\<lambda>s. Inr 0) (31 * day - 30 * day)) [1..1 - 1]
      (?ps, []) ?w1 = (Inr (?ps, []), ?w1)"
    by simp
  have f: "get_json_with_retries ?srv [PStr (API @ ''/mentoring/discussions'')] 0.2
      [(''params'', PDict (AList.update ''page'' (PInt 1) (fst (?ps, []::pyval list))))] ?w1
      = (Inr (page_envelope [?d1] 1 1), ?w3)"
    by (rule up_for_fetch_ok) simp_all
  have dpre: "for_each (check_discussion ?srv (\<lambda>v. ''?'') (\<lambda>s. Inr 0) (31 * day - 30 * day)) []
      (snd (?ps, [])) ?w3 = (Inr [], ?w3)"
    by simp
  have "\<exists>u'. get_json_with_retries ?srv
      [PStr (API @ ''/mentoring/discussions/'' @ fstr (\<lambda>v. ''?'') (PStr ''d1'') @ ''/posts'')]
      0.2 [] ?w3 = (Inl (RetryError (HTTPError 503)), u')"
    by (rule up_for_fetch_down) simp_all
  then obtain u' where g: "get_json_with_retries ?srv
      [PStr (API @ ''/mentoring/discussions/'' @ fstr (\<lambda>v. ''?'') (PStr ''d1'') @ ''/posts'')]
      0.2 [] ?w3 = (Inl (RetryError (HTTPError 503)), u')"
    by blast
  have ord: "''oldest'' \<in> {''oldest'', ''recent'', ''exercise'', ''student''}"
    and stat: "''awaiting_student'' \<in> {''awaiting_mentor'', ''awaiting_student'', ''finished''}"
    by simp_all
  have meta: "getitem (page_envelope [?d1] 1 1) ''meta''
                = Inr (PDict [(''current_page'', PInt 1), (''total_pages'', PInt 1)])"
    and tot: "getitem (PDict [(''current_page'', PInt 1), (''total_pages'', PInt 1)])
                ''total_pages'' = Inr (PInt 1)"
    and num: "as_number (PInt 1) = Some 1"
    and res: "getitem (page_envelope [?d1] 1 1) ''results'' = Inr (PList [?d1])"
    and it: "py_iter (PList [?d1]) = Inr ([] @ ?d1 # [])"
    and ts: "getitem ?d1 ''updated_at'' = Inr (PStr ''2024-01-01T00:00:00Z'')"
    and parse: "py_strptime (\<lambda>s. Inr 0) (PStr ''2024-01-01T00:00:00Z'') = Inr 0"
    and uu: "getitem ?d1 ''uuid'' = Inr (PStr ''d1'')"
    by (simp_all add: page_envelope_def getitem_def as_number_def py_iter_def py_strptime_def)
  have le: "(1::int) \<le> 1" and old: "(0::int) \<le> 31 * day - 30 * day"
    by (simp_all add: day_def)
  from one_shot_operations_abort_on_failure
         [THEN conjunct2, THEN conjunct2, THEN conjunct2, THEN conjunct2, THEN conjunct2,
          THEN conjunct2, rule_format,
          OF ord stat probe meta tot num le le pre f res it dpre ts parse old uu g]
  show "\<exists>u'. old_mentor_discussions ?srv (\<lambda>v. ''?'') (\<lambda>s. Inr 0) (31 * day)
              ''awaiting_student'' 30 ''oldest'' []
            = (Inl (RetryError (HTTPError 503)), u')"
    by blast
qed

section \<open>The notification watcher\<close>

subsection \<open>Fetches dispatch nothing\<close>

lemma dispatched_append [simp]: "dispatched (u @ v) = dispatched u @ dispatched v"
  by (induction u rule: dispatched.induct) simp_all

lemma request_tail_no_dispatch:
  "request_tail resp sleep w = (r, w') \<Longrightarrow> \<exists>es. w' = w @ es \<and> dispatched es = []"
  by (auto simp: request_tail_def time_sleep_def split: sum.splits if_splits)

lemma session_call_no_dispatch:
  "session_call srv f as kw w = (r, w') \<Longrightarrow> \<exists>es. w' = w @ es \<and> dispatched es = []"
  by (auto simp: session_call_def split: option.splits outcome.splits)

lemma no_dispatch_trans:
  assumes "\<exists>es. w1 = w @ es \<and> dispatched es = []" and "\<exists>es. w2 = w1 @ es \<and> dispatched es = []"
  shows "\<exists>es. w2 = w @ es \<and> dispatched es = []"
proof -
  from assms obtain e1 e2 where "w1 = w @ e1" "dispatched e1 = []" "w2 = w1 @ e2"
    "dispatched e2 = []" by blast
  then show ?thesis by (intro exI [of _ "e1 @ e2"]) simp
qed

lemma request_no_dispatch:
  assumes "request srv f as sleep kw w = (r, w')"
  shows "\<exists>es. w' = w @ es \<and> dispatched es = []"
proof -
  obtain r1 w1 where c1: "session_call srv f as kw w = (r1, w1)"
    by (cases "session_call srv f as kw w")
  note s1 = session_call_no_dispatch [OF c1]
  show ?thesis
  proof (cases r1)
    case (Inl e)
    with c1 assms have "w' = w1" by (auto simp: request_def)
    with s1 show ?thesis by simp
  next
    case (Inr resp)
    show ?thesis
    proof (cases "retry_after resp")
      case None
      with c1 Inr assms have "request_tail resp sleep w1 = (r, w')" by (simp add: request_def)
      from no_dispatch_trans [OF s1 request_tail_no_dispatch [OF this]] show ?thesis .
    next
      case (Some h)
      show ?thesis
      proof (cases "py_int h")
        case (Inl e)
        with Some c1 Inr assms have "w' = w1" by (auto simp: request_def)
        with s1 show ?thesis by simp
      next
        case (Inr delay)
        show ?thesis
        proof (cases "real_of_int (delay + 1) < 0")
          case True
          with Inr Some c1 \<open>r1 = Inr resp\<close> assms have "w' = w1"
            by (auto simp: request_def time_sleep_def)
          with s1 show ?thesis by simp
        next
          case False
          let ?w2 = "w1 @ [Sleep (real_of_int (delay + 1))]"
          have s2: "\<exists>es. ?w2 = w1 @ es \<and> dispatched es = []"
            by (intro exI [of _ "[Sleep (real_of_int (delay + 1))]"]) simp
          obtain r3 w3 where c3: "session_call srv f as kw ?w2 = (r3, w3)"
            by (cases "session_call srv f as kw ?w2")
          note s3 = no_dispatch_trans [OF no_dispatch_trans [OF s1 s2]
              session_call_no_dispatch [OF c3]]
          show ?thesis
          proof (cases r3)
            case (Inl e)
            with c3 False Inr Some c1 \<open>r1 = Inr resp\<close> assms have "w' = w3"
              by (auto simp: request_def time_sleep_def)
            with s3 show ?thesis by simp
          next
            case (Inr resp2)
            with c3 False \<open>py_int h = Inr delay\<close> Some c1 \<open>r1 = Inr resp\<close> assms
            have t: "request_tail resp2 sleep w3 = (r, w')"
              by (simp add: request_def time_sleep_def)
            from no_dispatch_trans [OF s3 request_tail_no_dispatch [OF t]] show ?thesis .
          qed
        qed
      qed
    qed
  qed
qed

lemma get_json_attempt_no_dispatch:
  assumes "get_json_attempt srv as sleep kw w = (r, w')"
  shows "\<exists>es. w' = w @ es \<and> dispatched es = []"
proof -
  obtain r1 w1 where c: "request srv SessionGet as sleep kw w = (r1, w1)"
    by (cases "request srv SessionGet as sleep kw w")
  with assms have "w' = w1" by (auto simp: get_json_attempt_def split: sum.splits)
  with request_no_dispatch [OF c] show ?thesis by simp
qed

lemma retrying_no_dispatch:
  assumes "\<And>u r u'. fn u = (r, u') \<Longrightarrow> \<exists>es. u' = u @ es \<and> dispatched es = []"
    and "retrying fn a w = (r, w')"
  shows "\<exists>es. w' = w @ es \<and> dispatched es = []"
  using assms
proof (induction fn a w arbitrary: r w' rule: retrying.induct)
  case (1 fn a w)
  note A = "1.prems"(1) and run = "1.prems"(2)
  obtain r1 w1 where f: "fn (w @ [Attempt a]) = (r1, w1)" by (cases "fn (w @ [Attempt a])")
  have s0: "\<exists>es. w @ [Attempt a] = w @ es \<and> dispatched es = []"
    by (intro exI [of _ "[Attempt a]"]) simp
  note s1 = no_dispatch_trans [OF s0 A [OF f]]
  show ?case
  proof (cases "\<exists>e. r1 = Inl e \<and> retry_if_exception_type e \<and> \<not> stop_after_attempt 3 a")
    case False
    with f run have "w' = w1"
      by (cases r1) (auto simp: retrying.simps split: if_splits)
    with s1 show ?thesis by simp
  next
    case True
    then obtain e where e: "r1 = Inl e" "\<not> \<not> retry_if_exception_type e"
      "\<not> stop_after_attempt 3 a" by auto
    let ?w2 = "w1 @ [Backoff (wait_exponential 2 15 60 a)]"
    have s2: "\<exists>es. ?w2 = w1 @ es \<and> dispatched es = []"
      by (intro exI [of _ "[Backoff (wait_exponential 2 15 60 a)]"]) simp
    from e f run have rec: "retrying fn (a + 1) ?w2 = (r, w')"
      by (simp add: retrying.simps)
    from "1.IH" [OF f [symmetric] e A rec]
    have "\<exists>es. w' = ?w2 @ es \<and> dispatched es = []" .
    from no_dispatch_trans [OF no_dispatch_trans [OF s1 s2] this] show ?thesis .
  qed
qed

lemma notifications_no_dispatch:
  assumes "notifications srv w = (r, w')"
  shows "\<exists>es. w' = w @ es \<and> dispatched es = []"
  using assms unfolding notifications_def get_json_with_retries_def
  by (rule retrying_no_dispatch [rotated]) (rule get_json_attempt_no_dispatch)

subsection \<open>What one polling cycle dispatches\<close>

lemma request_tail_response:
  "request_tail resp sleep w = (Inr x, w') \<Longrightarrow> x = resp"
  by (auto simp: request_tail_def time_sleep_def split: sum.splits if_splits)

lemma session_call_response:
  "session_call srv f as kw w = (Inr resp, w') \<Longrightarrow> \<exists>n r. srv n r = Reply resp"
  by (auto simp: session_call_def split: option.splits outcome.splits)

lemma request_response:
  assumes "request srv f as sleep kw w = (Inr resp, w')"
  shows "\<exists>n r. srv n r = Reply resp"
  using assms
  by (auto simp: request_def py_int_def time_sleep_def
      split: prod.splits sum.splits option.splits header_value.splits if_splits
      dest!: request_tail_response session_call_response)

lemma get_json_attempt_response:
  assumes "get_json_attempt srv as sleep kw w = (Inr j, w')"
  shows "\<exists>n r resp. srv n r = Reply resp \<and> body resp = Some j"
  using assms
  by (auto simp: get_json_attempt_def resp_json_def
      split: prod.splits sum.splits option.splits dest!: request_response)

lemma retrying_result:
  assumes "retrying fn a w = (Inr x, w')"
  shows "\<exists>u. fn u = (Inr x, w')"
  using assms
proof (induction fn a w rule: retrying.induct)
  case (1 fn a w)
  obtain r1 w1 where f: "fn (w @ [Attempt a]) = (r1, w1)" by (cases "fn (w @ [Attempt a])")
  show ?case
  proof (cases r1)
    case (Inr y)
    with f "1.prems" have "y = x" "w1 = w'" by (simp_all add: retrying.simps)
    with f Inr show ?thesis by blast
  next
    case (Inl e)
    with f "1.prems" have c: "\<not> \<not> retry_if_exception_type e" "\<not> stop_after_attempt 3 a"
      and rec: "retrying fn (a + 1) (w1 @ [Backoff (wait_exponential 2 15 60 a)]) = (Inr x, w')"
      by (auto simp: retrying.simps split: if_splits)
    from "1.IH" [OF f [symmetric] Inl c rec] show ?thesis .
  qed
qed

lemma notifications_response:
  assumes "notifications srv w = (Inr j, w')"
  shows "\<exists>n r resp. srv n r = Reply resp \<and> body resp = Some j"
  using retrying_result [OF assms [unfolded notifications_def get_json_with_retries_def]]
    get_json_attempt_response by blast

lemma unread_of_filter:
  "unread_of rs = Inr us \<Longrightarrow>
     us = filter (\<lambda>r. \<exists>b. getitem r ''is_read'' = Inr b \<and> \<not> truthy b) rs"
  by (induction rs arbitrary: us) (auto split: sum.splits)

lemma unseen_of_filter:
  "unseen_of seen rs = Inr us \<Longrightarrow>
     us = filter (\<lambda>r. \<exists>k. uuid_key r = Inr k \<and> k \<notin> seen) rs"
  by (induction rs arbitrary: us) (auto split: sum.splits)

lemma unseen_of_keys:
  "unseen_of seen rs = Inr us \<Longrightarrow>
     \<exists>ks. uuid_keys us = Inr ks \<and> map uuid_key us = map Inr ks"
  by (induction rs arbitrary: us) (auto split: sum.splits if_splits)

lemma dispatched_map_Dispatch [simp]: "dispatched (map Dispatch xs) = xs"
  by (induction xs) simp_all

lemma poll_unread_no_dispatch:
  assumes "poll_unread srv w = (r, w')"
  shows "\<exists>es. w' = w @ es \<and> dispatched es = []"
proof -
  obtain r1 w1 where n: "notifications srv w = (r1, w1)" by (cases "notifications srv w")
  with assms have "w' = w1"
    by (auto simp: poll_unread_def split: sum.splits)
  with notifications_no_dispatch [OF n] show ?thesis by simp
qed

lemma poll_unread_list:
  assumes "poll_unread srv w = (Inr unread, w')"
  shows "\<exists>rs. unread = filter (\<lambda>r. \<exists>b. getitem r ''is_read'' = Inr b \<and> \<not> truthy b) rs
            \<and> (lists_each_once srv \<longrightarrow> distinct (map uuid_key rs))"
proof -
  from assms obtain j w1 results rs where n: "notifications srv w = (Inr j, w1)"
    and g: "getitem j ''results'' = Inr results" and i: "py_iter results = Inr rs"
    and u: "unread_of rs = Inr unread"
    by (auto simp: poll_unread_def split: prod.splits sum.splits)
  from notifications_response [OF n] obtain k r resp where
    "srv k r = Reply resp" "body resp = Some j" by blast
  with g i have "lists_each_once srv \<longrightarrow> distinct (map uuid_key rs)"
    unfolding lists_each_once_def by blast
  with unread_of_filter [OF u] show ?thesis by blast
qed


lemma uuid_keys_map: "uuid_keys rs = Inr ks \<Longrightarrow> map uuid_key rs = map Inr ks"
  by (induction rs arbitrary: ks) (auto split: sum.splits)

lemma length_mutate [simp]: "length (mutate f objs) = length objs"
  by (simp add: mutate_def)

lemma uuid_key_mutated:
  assumes "\<And>i d. map_of (f i d) ''uuid'' = map_of d ''uuid''"
  shows "uuid_key (case v of PDict d \<Rightarrow> PDict (f i d) | _ \<Rightarrow> v) = uuid_key v"
  using assms by (cases v) (simp_all add: uuid_key_def getitem_def)

lemma mutate_keys:
  assumes "keeps_uuid cb" and "cb s objs' = (e, f, s')"
  shows "map uuid_key (mutate f objs) = map uuid_key objs"
proof -
  from assms have k: "\<And>i d. map_of (f i d) ''uuid'' = map_of d ''uuid''"
    unfolding keeps_uuid_def by blast
  have "map (\<lambda>p. uuid_key (case snd p of PDict d \<Rightarrow> PDict (f (fst p) d) | _ \<Rightarrow> snd p)) ps
          = map (\<lambda>p. uuid_key (snd p)) ps" for ps :: "(nat \<times> pyval) list"
    by (rule map_cong [OF refl]) (rule uuid_key_mutated [OF k])
  then have "map uuid_key (mutate f objs) = map (\<lambda>p. uuid_key (snd p)) (zip [0..<length objs] objs)"
    by (simp add: mutate_def comp_def case_prod_beta)
  also have "map (\<lambda>p. uuid_key (snd p)) (zip xs objs) = map uuid_key objs"
    if "length xs = length objs" for xs :: "nat list"
    using that by (induction xs objs rule: list_induct2) simp_all
  then have "map (\<lambda>p. uuid_key (snd p)) (zip [0..<length objs] objs) = map uuid_key objs"
    by simp
  finally show ?thesis .
qed

lemma dispatch_all_trace:
  assumes "dispatch_all cb handed us s w = (r, w')"
  shows "\<exists>k. w' = w @ map Dispatch (take k us) \<and> ((\<exists>x. r = Inr x) \<longrightarrow> take k us = us)"
  using assms
proof (induction us arbitrary: handed s w)
  case Nil
  then show ?case by simp
next
  case (Cons u us)
  obtain e f s' where c: "cb s (handed @ [u]) = (e, f, s')" by (cases "cb s (handed @ [u])")
  show ?case
  proof (cases e)
    case (Some x)
    with Cons.prems c have "w' = w @ [Dispatch u]" "r = Inl x" by simp_all
    then show ?thesis by (intro exI [of _ 1]) simp
  next
    case None
    with Cons.prems c
    have "dispatch_all cb (mutate f (handed @ [u])) us s' (w @ [Dispatch u]) = (r, w')" by simp
    from Cons.IH [OF this] obtain k where
      "w' = (w @ [Dispatch u]) @ map Dispatch (take k us)" "(\<exists>x. r = Inr x) \<longrightarrow> take k us = us"
      by blast
    then show ?thesis by (intro exI [of _ "Suc k"]) simp
  qed
qed

lemma dispatch_all_keys:
  assumes "keeps_uuid cb" and "dispatch_all cb handed us s w = (Inr (handed', s'), w')"
  shows "map uuid_key handed' = map uuid_key (handed @ us)"
  using assms(2)
proof (induction us arbitrary: handed s w)
  case Nil
  then show ?case by simp
next
  case (Cons u us)
  obtain e f s1 where c: "cb s (handed @ [u]) = (e, f, s1)" by (cases "cb s (handed @ [u])")
  with Cons.prems have e: "e = None" by (cases e) simp_all
  with Cons.prems c
  have "dispatch_all cb (mutate f (handed @ [u])) us s1 (w @ [Dispatch u]) = (Inr (handed', s'), w')"
    by simp
  from Cons.IH [OF this] have "map uuid_key handed' = map uuid_key (mutate f (handed @ [u]) @ us)" .
  also have "\<dots> = map uuid_key ((handed @ [u]) @ us)"
    using mutate_keys [OF assms(1) c, of "handed @ [u]"] by simp
  finally show ?case by simp
qed

lemma poll_cycle_step:
  assumes "poll_cycle srv cb (S, c) w = (r, w')"
  shows "\<exists>es. w' = w @ es
          \<and> (\<forall>x\<in>set (dispatched es). \<exists>k. uuid_key x = Inr k \<and> k \<notin> S)
          \<and> (\<forall>S' c'. r = Inr (S', c') \<longrightarrow>
                S \<subseteq> S' \<and> (keeps_uuid cb \<longrightarrow>
                  (\<forall>x\<in>set (dispatched es). \<exists>k. uuid_key x = Inr k \<and> k \<in> S')))
          \<and> (lists_each_once srv \<longrightarrow> distinct (map uuid_key (dispatched es)))"
proof -
  let ?w0 = "w @ [Sleep WATCHER_SLEEP_SEC]"
  have ts: "time_sleep WATCHER_SLEEP_SEC w = (Inr (), ?w0)"
    by (simp add: time_sleep_def WATCHER_SLEEP_SEC_def)
  obtain ru w1 where pu: "poll_unread srv ?w0 = (ru, w1)" by (cases "poll_unread srv ?w0")
  from poll_unread_no_dispatch [OF pu] obtain e1 where
    e1: "w1 = ?w0 @ e1" "dispatched e1 = []" by blast
  have quiet: ?thesis if "w' = w1" "\<forall>S' c'. r = Inr (S', c') \<longrightarrow> S' = S"
    using that e1 by (intro exI [of _ "Sleep WATCHER_SLEEP_SEC # e1"]) auto
  show ?thesis
  proof (cases ru)
    case (Inl e)
    with assms ts pu have "w' = w1" "\<forall>S' c'. r = Inr (S', c') \<longrightarrow> S' = S"
      by (auto simp: poll_cycle_def split: if_splits)
    then show ?thesis by (rule quiet)
  next
    case (Inr unread)
    from poll_unread_list [OF pu [unfolded Inr]] obtain rs where
      rs: "unread = filter (\<lambda>r. \<exists>b. getitem r ''is_read'' = Inr b \<and> \<not> truthy b) rs"
      "lists_each_once srv \<longrightarrow> distinct (map uuid_key rs)" by blast
    show ?thesis
    proof (cases "unseen_of S unread")
      case (Inl e)
      with assms ts pu \<open>ru = Inr unread\<close> have "w' = w1" "\<forall>S' c'. r = Inr (S', c') \<longrightarrow> S' = S"
        by (auto simp: poll_cycle_def)
      then show ?thesis by (rule quiet)
    next
      case (Inr unseen)
      note us = unseen_of_filter [OF Inr]
      obtain rd w2 where fe: "dispatch_all cb [] unseen c w1 = (rd, w2)"
        by (cases "dispatch_all cb [] unseen c w1")
      from dispatch_all_trace [OF fe] obtain k where
        k: "w2 = w1 @ map Dispatch (take k unseen)" "(\<exists>x. rd = Inr x) \<longrightarrow> take k unseen = unseen"
        by blast
      from assms ts pu \<open>ru = Inr unread\<close> Inr fe
      have res: "w' = w2"
        "\<forall>S' c'. r = Inr (S', c') \<longrightarrow>
           (\<exists>unseen' ks. rd = Inr (unseen', c') \<and> uuid_keys unseen' = Inr ks \<and> S' = S \<union> set ks)"
        by (auto simp: poll_cycle_def split: sum.splits)
      define es where "es = Sleep WATCHER_SLEEP_SEC # e1 @ map Dispatch (take k unseen)"
      have d: "dispatched es = take k unseen" using e1 by (simp add: es_def)
      have sub: "set (take k unseen) \<subseteq> set unseen" by (rule set_take_subset)
      have notin: "\<forall>x\<in>set (take k unseen). \<exists>k. uuid_key x = Inr k \<and> k \<notin> S"
        using sub us by auto
      have dist: "distinct (map uuid_key (take k unseen))" if "lists_each_once srv"
      proof -
        from that rs have "distinct (map uuid_key unread)"
          by (simp add: distinct_map_filter)
        then have "distinct (map uuid_key unseen)"
          unfolding us by (rule distinct_map_filter)
        then have "distinct (take k (map uuid_key unseen))" by (rule distinct_take)
        then show ?thesis by (simp add: take_map)
      qed
      have a: "w' = w @ es" using res k e1 by (simp add: es_def)
      have b: "\<forall>S' c'. r = Inr (S', c') \<longrightarrow>
          S \<subseteq> S' \<and> (keeps_uuid cb \<longrightarrow>
            (\<forall>x\<in>set (take k unseen). \<exists>k. uuid_key x = Inr k \<and> k \<in> S'))"
      proof (intro allI impI conjI)
        fix S' c' assume r: "r = Inr (S', c')"
        with res obtain unseen' ks where
          rd: "rd = Inr (unseen', c')" and ks: "uuid_keys unseen' = Inr ks" and S': "S' = S \<union> set ks"
          by blast
        show "S \<subseteq> S'" unfolding S' by simp
        assume keeps: "keeps_uuid cb"
        from rd k have tk: "take k unseen = unseen" by simp
        from dispatch_all_keys [OF keeps fe [unfolded rd]]
        have "map uuid_key unseen = map uuid_key unseen'" by simp
        also from ks have "\<dots> = map Inr ks" by (rule uuid_keys_map)
        finally have m: "map uuid_key unseen = map Inr ks" .
        show "\<forall>x\<in>set (take k unseen). \<exists>k. uuid_key x = Inr k \<and> k \<in> S'"
        proof
          fix x assume "x \<in> set (take k unseen)"
          then have "x \<in> set unseen" unfolding tk .
          then have "uuid_key x \<in> set (map uuid_key unseen)" by simp
          then have "uuid_key x \<in> Inr ` set ks" unfolding m by simp
          then show "\<exists>k. uuid_key x = Inr k \<and> k \<in> S'" unfolding S' by auto
        qed
      qed
      have c': "lists_each_once srv \<longrightarrow> distinct (map uuid_key (take k unseen))"
        using dist by blast
      show ?thesis
        using a notin b c' unfolding d [symmetric] by blast
    qed
  qed
qed

lemma poll_cycle_continues:
  assumes "poll_cycle srv cb (S, c) w = (Inr (S', c'), w')"
  shows "\<exists>es. w' = w @ es
          \<and> (\<forall>x\<in>set (dispatched es). \<exists>k. uuid_key x = Inr k \<and> k \<notin> S)
          \<and> S \<subseteq> S'
          \<and> (keeps_uuid cb \<longrightarrow> (\<forall>x\<in>set (dispatched es). \<exists>k. uuid_key x = Inr k \<and> k \<in> S'))
          \<and> (lists_each_once srv \<longrightarrow> distinct (map uuid_key (dispatched es)))"
proof -
  from poll_cycle_step [OF assms] obtain es where
    a: "w' = w @ es"
    and b: "\<forall>x\<in>set (dispatched es). \<exists>k. uuid_key x = Inr k \<and> k \<notin> S"
    and c: "\<forall>S'' c''. Inr (S', c') = (Inr (S'', c'') :: exn + pyval set \<times> 'a) \<longrightarrow>
                S \<subseteq> S'' \<and> (keeps_uuid cb \<longrightarrow>
                  (\<forall>x\<in>set (dispatched es). \<exists>k. uuid_key x = Inr k \<and> k \<in> S''))"
    and d: "lists_each_once srv \<longrightarrow> distinct (map uuid_key (dispatched es))"
    by (elim exE conjE)
  from c have "S \<subseteq> S' \<and> (keeps_uuid cb \<longrightarrow>
                  (\<forall>x\<in>set (dispatched es). \<exists>k. uuid_key x = Inr k \<and> k \<in> S'))"
    by (elim allE [of _ S'] allE [of _ c']) simp
  then have c': "S \<subseteq> S'"
    "keeps_uuid cb \<longrightarrow> (\<forall>x\<in>set (dispatched es). \<exists>k. uuid_key x = Inr k \<and> k \<in> S')"
    by (rule conjunct1, rule conjunct2)
  show ?thesis by (rule exI [of _ es]) (intro conjI a b c' d)
qed

subsection \<open>Any number of polling cycles\<close>

lemma poll_cycles_add:
  "poll_cycles srv cb (n + m) st w =
     (case poll_cycles srv cb n st w of
        (Inl e, w1) \<Rightarrow> (Inl e, w1)
      | (Inr st1, w1) \<Rightarrow> poll_cycles srv cb m st1 w1)"
  by (induction n arbitrary: st w) (auto split: prod.splits sum.splits)

lemma keys_disjoint:
  assumes "\<forall>x\<in>A. \<exists>k. f x = Inr k \<and> k \<in> S" and "\<forall>x\<in>B. \<exists>k. f x = Inr k \<and> k \<notin> S"
  shows "f ` A \<inter> f ` B = {}"
proof (rule equals0I)
  fix y assume "y \<in> f ` A \<inter> f ` B"
  then obtain a b where ab: "a \<in> A" "b \<in> B" "y = f a" "y = f b" by blast
  from assms(1) ab(1) obtain k where k: "f a = Inr k" "k \<in> S" by blast
  from assms(2) ab(2) obtain k' where k': "f b = Inr k'" "k' \<notin> S" by blast
  from ab(3,4) k(1) k'(1) have "k = k'" by simp
  with k(2) k'(2) show False by simp
qed

lemma keys_outside:
  assumes "\<forall>x\<in>A. \<exists>k. f x = Inr k \<and> k \<notin> S1" and "S \<subseteq> S1"
  shows "\<forall>x\<in>A. \<exists>k. f x = Inr k \<and> k \<notin> S"
  using assms by blast

lemma keys_inside:
  assumes "\<forall>x\<in>A. \<exists>k. f x = Inr k \<and> k \<in> S1" and "S1 \<subseteq> S"
  shows "\<forall>x\<in>A. \<exists>k. f x = Inr k \<and> k \<in> S"
  using assms by blast

lemma poll_cycles_invariant:
  assumes "poll_cycles srv cb n (S, c) w = (r, w')"
  shows "\<exists>es. w' = w @ es
          \<and> (\<forall>x\<in>set (dispatched es). \<exists>k. uuid_key x = Inr k \<and> k \<notin> S)
          \<and> (\<forall>S' c'. r = Inr (S', c') \<longrightarrow>
                S \<subseteq> S' \<and> (keeps_uuid cb \<longrightarrow>
                  (\<forall>x\<in>set (dispatched es). \<exists>k. uuid_key x = Inr k \<and> k \<in> S')))
          \<and> (keeps_uuid cb \<longrightarrow> lists_each_once srv \<longrightarrow> distinct (map uuid_key (dispatched es)))"
  using assms
proof (induction n arbitrary: S c w)
  case 0
  then have "w' = w @ []" "r = Inr (S, c)" by simp_all
  then show ?case by (intro exI [of _ "[]"]) simp
next
  case (Suc n)
  obtain r1 w1 where cy: "poll_cycle srv cb (S, c) w = (r1, w1)"
    by (cases "poll_cycle srv cb (S, c) w")
  show ?case
  proof (cases r1)
    case (Inl e)
    with Suc.prems cy have res: "w' = w1" "r = Inl e" by simp_all
    from poll_cycle_step [OF cy] obtain es1 where
      a1: "w1 = w @ es1"
      and b1: "\<forall>x\<in>set (dispatched es1). \<exists>k. uuid_key x = Inr k \<and> k \<notin> S"
      and d1: "lists_each_once srv \<longrightarrow> distinct (map uuid_key (dispatched es1))"
      by (elim exE conjE)
    from res a1 b1 d1 show ?thesis by (intro exI [of _ es1]) simp
  next
    case (Inr st1)
    obtain S1 c1 where st1: "st1 = (S1, c1)" by (cases st1)
    from cy Inr st1 have cy': "poll_cycle srv cb (S, c) w = (Inr (S1, c1), w1)" by simp
    from poll_cycle_continues [OF cy'] obtain es1 where
      a1: "w1 = w @ es1"
      and b1: "\<forall>x\<in>set (dispatched es1). \<exists>k. uuid_key x = Inr k \<and> k \<notin> S"
      and s1: "S \<subseteq> S1"
      and in1: "keeps_uuid cb \<longrightarrow> (\<forall>x\<in>set (dispatched es1). \<exists>k. uuid_key x = Inr k \<and> k \<in> S1)"
      and d1: "lists_each_once srv \<longrightarrow> distinct (map uuid_key (dispatched es1))"
      by (elim exE conjE)
    from Suc.prems cy' have rec: "poll_cycles srv cb n (S1, c1) w1 = (r, w')" by simp
    from Suc.IH [OF rec] obtain es2 where
      a2: "w' = w1 @ es2"
      and b2: "\<forall>x\<in>set (dispatched es2). \<exists>k. uuid_key x = Inr k \<and> k \<notin> S1"
      and c2: "\<forall>S' c'. r = Inr (S', c') \<longrightarrow>
                S1 \<subseteq> S' \<and> (keeps_uuid cb \<longrightarrow>
                  (\<forall>x\<in>set (dispatched es2). \<exists>k. uuid_key x = Inr k \<and> k \<in> S'))"
      and d2: "keeps_uuid cb \<longrightarrow> lists_each_once srv \<longrightarrow> distinct (map uuid_key (dispatched es2))"
      by (elim exE conjE)
    have a: "w' = w @ (es1 @ es2)" using a1 a2 by simp
    have b2': "\<forall>x\<in>set (dispatched es2). \<exists>k. uuid_key x = Inr k \<and> k \<notin> S"
      using b2 s1 by (rule keys_outside)
    have b: "\<forall>x\<in>set (dispatched (es1 @ es2)). \<exists>k. uuid_key x = Inr k \<and> k \<notin> S"
      using b1 b2' by (simp add: ball_Un)
    have cc: "\<forall>S' c'. r = Inr (S', c') \<longrightarrow>
         S \<subseteq> S' \<and> (keeps_uuid cb \<longrightarrow>
            (\<forall>x\<in>set (dispatched (es1 @ es2)). \<exists>k. uuid_key x = Inr k \<and> k \<in> S'))"
    proof (intro allI impI conjI)
      fix S' c' assume r: "r = Inr (S', c')"
      from c2 r have "S1 \<subseteq> S' \<and> (keeps_uuid cb \<longrightarrow>
                  (\<forall>x\<in>set (dispatched es2). \<exists>k. uuid_key x = Inr k \<and> k \<in> S'))"
        by (elim allE [of _ S'] allE [of _ c']) simp
      then have s2: "S1 \<subseteq> S'"
        and in2: "keeps_uuid cb \<longrightarrow> (\<forall>x\<in>set (dispatched es2). \<exists>k. uuid_key x = Inr k \<and> k \<in> S')"
        by (rule conjunct1, rule conjunct2)
      from s1 s2 show "S \<subseteq> S'" by (rule subset_trans)
      assume keeps: "keeps_uuid cb"
      from in1 keeps have "\<forall>x\<in>set (dispatched es1). \<exists>k. uuid_key x = Inr k \<and> k \<in> S1" by simp
      then have "\<forall>x\<in>set (dispatched es1). \<exists>k. uuid_key x = Inr k \<and> k \<in> S'"
        using s2 by (rule keys_inside)
      moreover from in2 keeps
      have "\<forall>x\<in>set (dispatched es2). \<exists>k. uuid_key x = Inr k \<and> k \<in> S'" by simp
      ultimately show "\<forall>x\<in>set (dispatched (es1 @ es2)). \<exists>k. uuid_key x = Inr k \<and> k \<in> S'"
        by (simp add: ball_Un)
    qed
    have d: "keeps_uuid cb \<longrightarrow> lists_each_once srv \<longrightarrow>
               distinct (map uuid_key (dispatched (es1 @ es2)))"
    proof (intro impI)
      assume keeps: "keeps_uuid cb" and once: "lists_each_once srv"
      from in1 keeps have "\<forall>x\<in>set (dispatched es1). \<exists>k. uuid_key x = Inr k \<and> k \<in> S1" by simp
      then have "uuid_key ` set (dispatched es1) \<inter> uuid_key ` set (dispatched es2) = {}"
        using b2 by (rule keys_disjoint)
      with keeps once d1 d2 show "distinct (map uuid_key (dispatched (es1 @ es2)))" by simp
    qed
    show ?thesis by (rule exI [of _ "es1 @ es2"]) (intro conjI a b cc d)
  qed
qed

lemma poll_cycles_continue:
  assumes "poll_cycles srv cb n (S, c) w = (Inr (S', c'), w')"
  shows "\<exists>es. w' = w @ es
          \<and> (\<forall>x\<in>set (dispatched es). \<exists>k. uuid_key x = Inr k \<and> k \<notin> S)
          \<and> S \<subseteq> S'
          \<and> (keeps_uuid cb \<longrightarrow> (\<forall>x\<in>set (dispatched es). \<exists>k. uuid_key x = Inr k \<and> k \<in> S'))
          \<and> (keeps_uuid cb \<longrightarrow> lists_each_once srv \<longrightarrow> distinct (map uuid_key (dispatched es)))"
proof -
  from poll_cycles_invariant [OF assms] obtain es where
    a: "w' = w @ es"
    and b: "\<forall>x\<in>set (dispatched es). \<exists>k. uuid_key x = Inr k \<and> k \<notin> S"
    and c: "\<forall>S'' c''. Inr (S', c') = (Inr (S'', c'') :: exn + pyval set \<times> 'a) \<longrightarrow>
                S \<subseteq> S'' \<and> (keeps_uuid cb \<longrightarrow>
                  (\<forall>x\<in>set (dispatched es). \<exists>k. uuid_key x = Inr k \<and> k \<in> S''))"
    and d: "keeps_uuid cb \<longrightarrow> lists_each_once srv \<longrightarrow> distinct (map uuid_key (dispatched es))"
    by (elim exE conjE)
  from c have "S \<subseteq> S' \<and> (keeps_uuid cb \<longrightarrow>
                  (\<forall>x\<in>set (dispatched es). \<exists>k. uuid_key x = Inr k \<and> k \<in> S'))"
    by (elim allE [of _ S'] allE [of _ c']) simp
  then have c': "S \<subseteq> S'"
    "keeps_uuid cb \<longrightarrow> (\<forall>x\<in>set (dispatched es). \<exists>k. uuid_key x = Inr k \<and> k \<in> S')"
    by (rule conjunct1, rule conjunct2)
  show ?thesis by (rule exI [of _ es]) (intro conjI a b c' d)
qed

lemma prime_seen_no_dispatch:
  assumes "prime_seen srv w = (r, w')"
  shows "\<exists>es. w' = w @ es \<and> dispatched es = []"
proof -
  obtain r1 w1 where n: "notifications srv w = (r1, w1)" by (cases "notifications srv w")
  with assms have "w' = w1"
    by (auto simp: prime_seen_def split: sum.splits)
  with notifications_no_dispatch [OF n] show ?thesis by simp
qed

lemma prime_seen_keys:
  assumes "prime_seen srv w = (Inr P, w0)"
  shows "\<exists>j results rs ks. notifications srv w = (Inr j, w0)
          \<and> getitem j ''results'' = Inr results \<and> py_iter results = Inr rs
          \<and> map uuid_key rs = map Inr ks \<and> P = set ks"
proof -
  from assms obtain j results rs ks where
    "notifications srv w = (Inr j, w0)" "getitem j ''results'' = Inr results"
    "py_iter results = Inr rs" "uuid_keys rs = Inr ks" "P = set ks"
    by (auto simp: prime_seen_def split: prod.splits sum.splits)
  with uuid_keys_map [of rs ks] show ?thesis by blast
qed

text \<open>
  Claim C6 (as the code has it). Let the priming fetch of \<^const>\<open>notification_pusher\<close>
  record the set \<open>P\<close>, let the set of seen keys be \<open>S\<close> when the \<open>n\<close>-th polling cycle has
  ended, and let the method be observed again \<open>m\<close> cycles later (where it has ended with
  an exception, or goes on with a set \<open>S'\<close>). Then \<open>P\<close> is the set of the keys of all
  notifications the priming response lists; the set has only grown (\<open>P \<subseteq> S \<subseteq> S'\<close>); the
  priming fetch dispatches nothing; every notification dispatched in the first \<open>n\<close> cycles
  has a key outside \<open>P\<close>; and every notification dispatched in the later cycles has a key
  outside \<open>S\<close>, whatever its \<^verbatim>\<open>is_read\<close> field says. So a notification listed at priming
  time is never dispatched. When the callback leaves the \<^verbatim>\<open>uuid\<close> of the notifications it
  is handed as it is, the key of every notification dispatched in the first \<open>n\<close> cycles is
  in \<open>S\<close>, so that it is not dispatched in a later cycle; and when in addition no response
  of the server lists the same key twice, no key is dispatched twice in the whole run.
\<close>

theorem watcher_dispatches_unseen_only:
  assumes "prime_seen srv w = (Inr P, w0)"
    and "notification_pusher srv cb c n w = (Inr (S, c1), w1)"
    and "notification_pusher srv cb c (n + m) w = (r, w2)"
  shows "(\<exists>j results rs ks. notifications srv w = (Inr j, w0)
            \<and> getitem j ''results'' = Inr results \<and> py_iter results = Inr rs
            \<and> map uuid_key rs = map Inr ks \<and> P = set ks)
       \<and> P \<subseteq> S \<and> (\<forall>S' c'. r = Inr (S', c') \<longrightarrow> S \<subseteq> S')
       \<and> (\<exists>es0 es1 es2. w0 = w @ es0 \<and> w1 = w0 @ es1 \<and> w2 = w1 @ es2
            \<and> dispatched es0 = []
            \<and> (\<forall>x\<in>set (dispatched es1). \<exists>k. uuid_key x = Inr k \<and> k \<notin> P)
            \<and> (\<forall>x\<in>set (dispatched es2). \<exists>k. uuid_key x = Inr k \<and> k \<notin> S)
            \<and> (keeps_uuid cb \<longrightarrow>
                  (\<forall>x\<in>set (dispatched es1). \<exists>k. uuid_key x = Inr k \<and> k \<in> S)
                  \<and> (lists_each_once srv \<longrightarrow>
                        distinct (map uuid_key (dispatched (es0 @ es1 @ es2))))))"
proof -
  from assms(1,2) have first: "poll_cycles srv cb n (P, c) w0 = (Inr (S, c1), w1)"
    by (simp add: notification_pusher_def)
  from assms(1,3) have "poll_cycles srv cb (n + m) (P, c) w0 = (r, w2)"
    by (simp add: notification_pusher_def)
  then have later: "poll_cycles srv cb m (S, c1) w1 = (r, w2)"
    unfolding poll_cycles_add first by simp
  from prime_seen_no_dispatch [OF assms(1)] obtain es0 where
    e0: "w0 = w @ es0" "dispatched es0 = []" by blast
  from poll_cycles_continue [OF first] obtain es1 where
    a1: "w1 = w0 @ es1"
    and b1: "\<forall>x\<in>set (dispatched es1). \<exists>k. uuid_key x = Inr k \<and> k \<notin> P"
    and c1: "P \<subseteq> S"
    and in1: "keeps_uuid cb \<longrightarrow> (\<forall>x\<in>set (dispatched es1). \<exists>k. uuid_key x = Inr k \<and> k \<in> S)"
    and d1: "keeps_uuid cb \<longrightarrow> lists_each_once srv \<longrightarrow> distinct (map uuid_key (dispatched es1))"
    by (elim exE conjE)
  from poll_cycles_invariant [OF later] obtain es2 where
    a2: "w2 = w1 @ es2"
    and b2: "\<forall>x\<in>set (dispatched es2). \<exists>k. uuid_key x = Inr k \<and> k \<notin> S"
    and c2': "\<forall>S' c'. r = Inr (S', c') \<longrightarrow>
                S \<subseteq> S' \<and> (keeps_uuid cb \<longrightarrow>
                  (\<forall>x\<in>set (dispatched es2). \<exists>k. uuid_key x = Inr k \<and> k \<in> S'))"
    and d2: "keeps_uuid cb \<longrightarrow> lists_each_once srv \<longrightarrow> distinct (map uuid_key (dispatched es2))"
    by (elim exE conjE)
  have c2: "\<forall>S' c'. r = Inr (S', c') \<longrightarrow> S \<subseteq> S'"
  proof (intro allI impI)
    fix S' c' assume "r = Inr (S', c')"
    with c2' show "S \<subseteq> S'" by simp
  qed
  have k: "keeps_uuid cb \<longrightarrow>
                  (\<forall>x\<in>set (dispatched es1). \<exists>k. uuid_key x = Inr k \<and> k \<in> S)
                  \<and> (lists_each_once srv \<longrightarrow>
                        distinct (map uuid_key (dispatched (es0 @ es1 @ es2))))"
  proof (intro impI conjI)
    assume keeps: "keeps_uuid cb"
    with in1 show i: "\<forall>x\<in>set (dispatched es1). \<exists>k. uuid_key x = Inr k \<and> k \<in> S" by simp
    assume once: "lists_each_once srv"
    have "uuid_key ` set (dispatched es1) \<inter> uuid_key ` set (dispatched es2) = {}"
      using i b2 by (rule keys_disjoint)
    with keeps once d1 d2 e0(2)
    show "distinct (map uuid_key (dispatched (es0 @ es1 @ es2)))" by simp
  qed
  have "\<exists>es0 es1 es2. w0 = w @ es0 \<and> w1 = w0 @ es1 \<and> w2 = w1 @ es2
            \<and> dispatched es0 = []
            \<and> (\<forall>x\<in>set (dispatched es1). \<exists>k. uuid_key x = Inr k \<and> k \<notin> P)
            \<and> (\<forall>x\<in>set (dispatched es2). \<exists>k. uuid_key x = Inr k \<and> k \<notin> S)
            \<and> (keeps_uuid cb \<longrightarrow>
                  (\<forall>x\<in>set (dispatched es1). \<exists>k. uuid_key x = Inr k \<and> k \<in> S)
                  \<and> (lists_each_once srv \<longrightarrow>
                        distinct (map uuid_key (dispatched (es0 @ es1 @ es2)))))"
    apply (rule exI [of _ es0])
    apply (rule exI [of _ es1])
    apply (rule exI [of _ es2])
    apply (intro conjI)
          apply (rule e0(1))
         apply (rule a1)
        apply (rule a2)
       apply (rule e0(2))
      apply (rule b1)
     apply (rule b2)
    apply (rule k)
    done
  with prime_seen_keys [OF assms(1)] c1 c2 show ?thesis by simp
qed

text \<open>The server \<^const>\<open>inbox\<close>, watched for two polling cycles by a callback that changes nothing.\<close>

lemma inbox_notifications:
  "notifications inbox u =
     (Inr (PDict [(''results'', PList (inbox_results (length (calls_of u))))]),
      u @ [Attempt 1,
           Call \<lparr>func = SessionGet, args = [PStr (API @ ''/notifications'')], kwargs = []\<rparr>,
           Sleep 0.2])"
  unfolding notifications_def
  by (rule get_json_with_retries_ok
        [where resp = "\<lparr>retry_after = None, status_code = 200,
                        body = Some (PDict [(''results'', PList (inbox_results (length (calls_of u))))])\<rparr>"])
     (simp_all add: inbox_def ok_reply_def)

lemma inbox_lists_each_once: "lists_each_once inbox"
  unfolding lists_each_once_def
proof (intro allI impI)
  fix n r resp j results rs
  assume "inbox n r = Reply resp" "body resp = Some j" "getitem j ''results'' = Inr results"
    "py_iter results = Inr rs"
  then have "rs = inbox_results n"
    by (auto simp: inbox_def ok_reply_def getitem_def py_iter_def)
  then show "distinct (map uuid_key rs)"
    by (simp add: inbox_results_def notification_def uuid_key_def getitem_def hash_key_def)
qed

lemma inbox_prime:
  "prime_seen inbox [] =
     (Inr {PStr ''a'', PStr ''r''},
      [Attempt 1,
       Call \<lparr>func = SessionGet, args = [PStr (API @ ''/notifications'')], kwargs = []\<rparr>,
       Sleep 0.2])"
  unfolding prime_seen_def inbox_notifications
  by (simp add: inbox_results_def notification_def getitem_def py_iter_def uuid_key_def
      hash_key_def)

lemma quiet_callback_keeps_uuid: "keeps_uuid quiet_callback"
  by (simp add: keeps_uuid_def quiet_callback_def)

lemma inbox_cycle_1:
  "poll_cycle inbox quiet_callback ({PStr ''a'', PStr ''r''}, ()) inbox_fetch =
     (Inr ({PStr ''a'', PStr ''r'', PStr ''b''}, ()),
      inbox_fetch @ Sleep WATCHER_SLEEP_SEC # inbox_fetch @ [Dispatch (notification ''b'' False)])"
  unfolding poll_cycle_def poll_unread_def inbox_notifications
  by (simp add: time_sleep_def WATCHER_SLEEP_SEC_def inbox_results_def notification_def
      getitem_def py_iter_def uuid_key_def hash_key_def truthy_def quiet_callback_def mutate_def
      insert_commute inbox_fetch_def)

lemma inbox_cycle_2:
  "poll_cycle inbox quiet_callback ({PStr ''a'', PStr ''r'', PStr ''b''}, ())
     (inbox_fetch @ Sleep WATCHER_SLEEP_SEC # inbox_fetch @ [Dispatch (notification ''b'' False)]) =
     (Inr ({PStr ''a'', PStr ''r'', PStr ''b'', PStr ''c''}, ()),
      inbox_fetch @ Sleep WATCHER_SLEEP_SEC # inbox_fetch @ [Dispatch (notification ''b'' False)]
        @ Sleep WATCHER_SLEEP_SEC # inbox_fetch @ [Dispatch (notification ''c'' False)])"
  unfolding poll_cycle_def poll_unread_def inbox_notifications
  by (simp add: time_sleep_def WATCHER_SLEEP_SEC_def inbox_results_def notification_def
      getitem_def py_iter_def uuid_key_def hash_key_def truthy_def quiet_callback_def mutate_def
      insert_commute inbox_fetch_def)

theorem watcher_dispatches_unseen_only_witness:
  "keeps_uuid quiet_callback \<and> lists_each_once inbox
   \<and> (\<exists>w0 w1 w2.
         prime_seen inbox [] = (Inr {PStr ''a'', PStr ''r''}, w0)
       \<and> notification_pusher inbox quiet_callback () 1 []
           = (Inr ({PStr ''a'', PStr ''r'', PStr ''b''}, ()), w1)
       \<and> notification_pusher inbox quiet_callback () (1 + 1) []
           = (Inr ({PStr ''a'', PStr ''r'', PStr ''b'', PStr ''c''}, ()), w2)
       \<and> dispatched w0 = []
       \<and> dispatched w1 = [notification ''b'' False]
       \<and> dispatched w2 = [notification ''b'' False, notification ''c'' False]
       \<and> distinct (map uuid_key (dispatched w2)))"
proof -
  let ?w1 = "inbox_fetch @ Sleep WATCHER_SLEEP_SEC # inbox_fetch @ [Dispatch (notification ''b'' False)]"
  let ?w2 = "?w1 @ Sleep WATCHER_SLEEP_SEC # inbox_fetch @ [Dispatch (notification ''c'' False)]"
  have h1: "prime_seen inbox [] = (Inr {PStr ''a'', PStr ''r''}, inbox_fetch)"
    unfolding inbox_fetch_def by (rule inbox_prime)
  have h2: "notification_pusher inbox quiet_callback () 1 []
              = (Inr ({PStr ''a'', PStr ''r'', PStr ''b''}, ()), ?w1)"
    unfolding notification_pusher_def h1 by (simp add: inbox_cycle_1)
  have h3: "notification_pusher inbox quiet_callback () (1 + 1) []
              = (Inr ({PStr ''a'', PStr ''r'', PStr ''b'', PStr ''c''}, ()), ?w2)"
    unfolding notification_pusher_def h1
    by (simp add: numeral_2_eq_2 inbox_cycle_1 inbox_cycle_2)
  have d0: "dispatched inbox_fetch = []" by (simp add: inbox_fetch_def)
  from watcher_dispatches_unseen_only [OF h1 h2 h3] obtain es0 es1 es2 where
    es: "inbox_fetch = [] @ es0" "?w1 = inbox_fetch @ es1" "?w2 = ?w1 @ es2"
    and d: "keeps_uuid quiet_callback \<longrightarrow>
                  (\<forall>x\<in>set (dispatched es1). \<exists>k. uuid_key x = Inr k
                      \<and> k \<in> {PStr ''a'', PStr ''r'', PStr ''b''})
                  \<and> (lists_each_once inbox \<longrightarrow>
                        distinct (map uuid_key (dispatched (es0 @ es1 @ es2))))"
    by (elim exE conjE)
  from es have "?w2 = es0 @ es1 @ es2" by simp
  with d quiet_callback_keeps_uuid inbox_lists_each_once
  have dist: "distinct (map uuid_key (dispatched ?w2))" by simp
  have "prime_seen inbox [] = (Inr {PStr ''a'', PStr ''r''}, inbox_fetch)
       \<and> notification_pusher inbox quiet_callback () 1 []
           = (Inr ({PStr ''a'', PStr ''r'', PStr ''b''}, ()), ?w1)
       \<and> notification_pusher inbox quiet_callback () (1 + 1) []
           = (Inr ({PStr ''a'', PStr ''r'', PStr ''b'', PStr ''c''}, ()), ?w2)
       \<and> dispatched inbox_fetch = []
       \<and> dispatched ?w1 = [notification ''b'' False]
       \<and> dispatched ?w2 = [notification ''b'' False, notification ''c'' False]
       \<and> distinct (map uuid_key (dispatched ?w2))"
    using h1 h2 h3 dist by (simp add: d0)
  then have "\<exists>w0 w1 w2.
         prime_seen inbox [] = (Inr {PStr ''a'', PStr ''r''}, w0)
       \<and> notification_pusher inbox quiet_callback () 1 []
           = (Inr ({PStr ''a'', PStr ''r'', PStr ''b''}, ()), w1)
       \<and> notification_pusher inbox quiet_callback () (1 + 1) []
           = (Inr ({PStr ''a'', PStr ''r'', PStr ''b'', PStr ''c''}, ()), w2)
       \<and> dispatched w0 = []
       \<and> dispatched w1 = [notification ''b'' False]
       \<and> dispatched w2 = [notification ''b'' False, notification ''c'' False]
       \<and> distinct (map uuid_key (dispatched w2))"
    by (intro exI)
  with quiet_callback_keeps_uuid inbox_lists_each_once show ?thesis by simp
qed

lemma dup_inbox_notifications:
  "notifications dup_inbox u =
     (Inr (PDict [(''results'', PList
        (if length (calls_of u) = 0 then []
         else [notification ''a'' False, notification ''a'' False]))]),
      u @ inbox_fetch)"
  unfolding notifications_def inbox_fetch_def
  by (rule get_json_with_retries_ok
        [where resp = "\<lparr>retry_after = None, status_code = 200,
                        body = Some (PDict [(''results'', PList
        (if length (calls_of u) = 0 then []
         else [notification ''a'' False, notification ''a'' False]))])\<rparr>"])
     (simp_all add: dup_inbox_def ok_reply_def)

lemma inbox_notifications_fetch:
  "notifications inbox u =
     (Inr (PDict [(''results'', PList (inbox_results (length (calls_of u))))]), u @ inbox_fetch)"
  unfolding inbox_fetch_def by (rule inbox_notifications)

text \<open>
  Claim C6 as stated has every notification dispatched at most once, in every execution.
  The server \<^const>\<open>dup_inbox\<close> lists the same unread notification twice in one response:
  both entries are dispatched, since the set of seen keys is updated after the loop over
  the unseen entries. And with the server \<^const>\<open>inbox\<close> and a callback that writes
  another \<^verbatim>\<open>uuid\<close> into the notification it is handed, the key recorded after the loop is
  not the key that was dispatched: the notification \<open>b\<close>, dispatched in the first polling
  cycle and still unread, is dispatched again in the second.
\<close>

theorem redispatch_counterexample:
  "dispatched (snd (notification_pusher dup_inbox quiet_callback () 1 []))
     = [notification ''a'' False, notification ''a'' False]
   \<and> dispatched (snd (notification_pusher inbox renaming_callback () 2 []))
     = [notification ''b'' False, notification ''b'' False, notification ''c'' False]"
proof
  have c: "calls_of inbox_fetch \<noteq> []" "dispatched inbox_fetch = []"
    by (simp_all add: inbox_fetch_def)
  show "dispatched (snd (notification_pusher dup_inbox quiet_callback () 1 []))
     = [notification ''a'' False, notification ''a'' False]"
    unfolding notification_pusher_def prime_seen_def poll_cycle_def poll_unread_def
      dup_inbox_notifications One_nat_def poll_cycles.simps
    by (simp add: c time_sleep_def WATCHER_SLEEP_SEC_def notification_def
      getitem_def py_iter_def uuid_key_def hash_key_def truthy_def quiet_callback_def mutate_def)
  have l: "length (calls_of inbox_fetch) = 1" by (simp add: inbox_fetch_def)
  show "dispatched (snd (notification_pusher inbox renaming_callback () 2 []))
     = [notification ''b'' False, notification ''b'' False, notification ''c'' False]"
    unfolding notification_pusher_def prime_seen_def poll_cycle_def poll_unread_def
      inbox_notifications_fetch numeral_2_eq_2 poll_cycles.simps
    by (simp add: c l time_sleep_def WATCHER_SLEEP_SEC_def notification_def inbox_results_def
      getitem_def py_iter_def uuid_key_def hash_key_def truthy_def renaming_callback_def mutate_def)
qed

section \<open>The notification watcher and failing fetches\<close>

text \<open>
  A fetch never fails with the exception of an attempt that the decorator retries: after
  the third such failure the decorator raises its own \<^verbatim>\<open>RetryError\<close>. So the handler
  \<^verbatim>\<open>except requests.exceptions.HTTPError: continue\<close> of the polling loop is never
  entered, and a fetch that fails in a polling cycle ends the method.
\<close>

lemma retrying_error:
  assumes "retrying fn 1 w = (Inl e, w')"
  shows "\<not> retry_if_exception_type e"
  using assms unfolding retrying_three_attempts
  by (auto simp: retry_if_exception_type_def split: prod.splits sum.splits if_splits)

lemma notifications_error:
  assumes "notifications srv w = (Inl e, w')"
  shows "\<not> is_HTTPError e \<and> e \<noteq> ConnectionError"
  using retrying_error [OF assms [unfolded notifications_def get_json_with_retries_def]]
  by (auto simp: retry_if_exception_type_def is_HTTPError_def split: exn.splits)

lemma poll_cycle_fetch_fails:
  assumes "notifications srv (w @ [Sleep WATCHER_SLEEP_SEC]) = (Inl e, w')"
  shows "poll_cycle srv cb st w = (Inl e, w')"
  using assms notifications_error [OF assms]
  by (simp add: poll_cycle_def poll_unread_def time_sleep_def WATCHER_SLEEP_SEC_def)

lemma notification_pusher_fetch_fails:
  assumes "prime_seen srv w = (Inr P, w0)"
    and "notifications srv (w0 @ [Sleep WATCHER_SLEEP_SEC]) = (Inl e, w')"
  shows "notification_pusher srv cb c (Suc n) w = (Inl e, w')"
  using assms(1) poll_cycle_fetch_fails [OF assms(2), of cb "(P, c)"]
  by (simp add: notification_pusher_def)

text \<open>The server \<^const>\<open>down_after\<close>: fetches while it is up, and once it refuses connections.\<close>

lemma down_after_fetch_down:
  assumes "k \<le> length (calls_of u)" and "call_error SessionGet [a] kw = None"
  shows "\<exists>u'. get_json_with_retries (down_after k j) [a] s kw u = (Inl (RetryError ConnectionError), u')"
  using assms unfolding get_json_with_retries_def retrying_three_attempts
  by (simp add: get_json_attempt_def
      request_def session_call_def
      down_after_def retry_if_exception_type_def)

lemma down_after_fetch_ok:
  assumes "length (calls_of u) < k" and "0 \<le> s" and "call_error SessionGet [a] kw = None"
  shows "get_json_with_retries (down_after k j) [a] s kw u =
           (Inr j, u @ [Attempt 1, Call \<lparr>func = SessionGet, args = [a], kwargs = kw\<rparr>, Sleep s])"
  by (rule get_json_with_retries_ok [where resp = "\<lparr>retry_after = None, status_code = 200, body = Some j\<rparr>"])
     (use assms in \<open>simp_all add: down_after_def ok_reply_def\<close>)

text \<open>
  Claim C7, on the code: a server answers the priming fetch and is unavailable from then
  on. Whether it answers 503 or refuses the connection, the first polling cycle makes three
  attempts and the method ends with \<^verbatim>\<open>RetryError\<close>; no later cycle is run.
\<close>

theorem watcher_ends_on_fetch_failure:
  "(\<exists>u. notification_pusher (up_for 1 (PDict [(''results'', PList [])])) cb c (Suc n) []
           = (Inl (RetryError (HTTPError 503)), u))
   \<and> (\<exists>u. notification_pusher (down_after 1 (PDict [(''results'', PList [])])) cb c (Suc n) []
           = (Inl (RetryError ConnectionError), u))"
proof
  let ?j = "PDict [(''results'', PList [])]"
  let ?w0 = "[] @ [Attempt 1,
       Call \<lparr>func = SessionGet, args = [PStr (API @ ''/notifications'')], kwargs = []\<rparr>,
       Sleep 0.2]"
  have n0: "notifications (up_for 1 ?j) [] = (Inr ?j, ?w0)"
    unfolding notifications_def by (rule up_for_fetch_ok) simp_all
  have p: "prime_seen (up_for 1 ?j) [] = (Inr {}, ?w0)"
    unfolding prime_seen_def n0 by (simp add: getitem_def py_iter_def)
  have "\<exists>u. notifications (up_for 1 ?j) (?w0 @ [Sleep WATCHER_SLEEP_SEC])
          = (Inl (RetryError (HTTPError 503)), u)"
    unfolding notifications_def by (rule up_for_fetch_down) simp_all
  then obtain u where "notifications (up_for 1 ?j) (?w0 @ [Sleep WATCHER_SLEEP_SEC])
          = (Inl (RetryError (HTTPError 503)), u)" ..
  from notification_pusher_fetch_fails [OF p this]
  show "\<exists>u. notification_pusher (up_for 1 ?j) cb c (Suc n) []
           = (Inl (RetryError (HTTPError 503)), u)" ..
next
  let ?j = "PDict [(''results'', PList [])]"
  let ?w0 = "[] @ [Attempt 1,
       Call \<lparr>func = SessionGet, args = [PStr (API @ ''/notifications'')], kwargs = []\<rparr>,
       Sleep 0.2]"
  have n0: "notifications (down_after 1 ?j) [] = (Inr ?j, ?w0)"
    unfolding notifications_def by (rule down_after_fetch_ok) simp_all
  have p: "prime_seen (down_after 1 ?j) [] = (Inr {}, ?w0)"
    unfolding prime_seen_def n0 by (simp add: getitem_def py_iter_def)
  have "\<exists>u. notifications (down_after 1 ?j) (?w0 @ [Sleep WATCHER_SLEEP_SEC])
          = (Inl (RetryError ConnectionError), u)"
    unfolding notifications_def by (rule down_after_fetch_down) simp_all
  then obtain u where "notifications (down_after 1 ?j) (?w0 @ [Sleep WATCHER_SLEEP_SEC])
          = (Inl (RetryError ConnectionError), u)" ..
  from notification_pusher_fetch_fails [OF p this]
  show "\<exists>u. notification_pusher (down_after 1 ?j) cb c (Suc n) []
           = (Inl (RetryError ConnectionError), u)" ..
qed

section \<open>The decision to finish or to nudge\<close>

lemma well_formed_postD:
  assumes "well_formed_post p"
  obtains v s where "getitem p ''by_student'' = Inr v" "getitem p ''updated_at'' = Inr (PStr s)"
    "by_student p = truthy v" "updated_at p = s"
  using assms
  by (auto simp: well_formed_post_def by_student_def updated_at_def
      split: sum.splits pyval.splits)

lemma py_lt_strings [simp]: "py_lt (PStr s) (PStr t) = Inr (s < t)"
  by (simp add: py_lt_def as_number_def)

lemma py_gt_strings [simp]: "py_gt (PStr s) (PStr t) = Inr (t < s)"
  by (simp add: py_gt_def)

lemma py_ge_strings [simp]: "py_ge (PStr s) (PStr t) = Inr (t \<le> s)"
  by (simp add: py_ge_def as_number_def)

lemma select_min_from:
  assumes "\<forall>p\<in>set posts. well_formed_post p"
  shows "select_extreme (\<lambda>b. \<not> truthy b) py_lt posts (Some (PStr m)) =
           Inr (Some (PStr (fold min (map updated_at (filter (\<lambda>p. \<not> by_student p) posts)) m)))"
  using assms
proof (induction posts arbitrary: m)
  case Nil
  show ?case by simp
next
  case (Cons p ps)
  from Cons.prems have "well_formed_post p" by simp
  then obtain v s where p: "getitem p ''by_student'' = Inr v"
    "getitem p ''updated_at'' = Inr (PStr s)" "by_student p = truthy v" "updated_at p = s"
    by (rule well_formed_postD)
  from Cons.prems have ps: "\<forall>p\<in>set ps. well_formed_post p" by simp
  have m: "(if s < m then s else m) = min s m" by (cases "s < m") (auto simp: min_def)
  show ?case using p by (simp add: Cons.IH [OF ps] m)
qed

lemma select_min:
  assumes "\<forall>p\<in>set posts. well_formed_post p"
  shows "select_extreme (\<lambda>b. \<not> truthy b) py_lt posts None =
           Inr (if filter (\<lambda>p. \<not> by_student p) posts = [] then None
                else Some (PStr (first_mentor_post_time posts)))"
  using assms
proof (induction posts)
  case Nil
  show ?case by simp
next
  case (Cons p ps)
  from Cons.prems have "well_formed_post p" by simp
  then obtain v s where p: "getitem p ''by_student'' = Inr v"
    "getitem p ''updated_at'' = Inr (PStr s)" "by_student p = truthy v" "updated_at p = s"
    by (rule well_formed_postD)
  from Cons.prems have ps: "\<forall>p\<in>set ps. well_formed_post p" by simp
  show ?case
  proof (cases "truthy v")
    case True
    then show ?thesis using p Cons.IH [OF ps] by (simp add: first_mentor_post_time_def)
  next
    case False
    let ?xs = "map updated_at (filter (\<lambda>p. \<not> by_student p) ps)"
    from False p have "map updated_at (filter (\<lambda>p. \<not> by_student p) (p # ps)) = s # ?xs"
      by simp
    then have "first_mentor_post_time (p # ps) = fold min ?xs s"
      unfolding first_mentor_post_time_def by (simp only: Min.set_eq_fold)
    then show ?thesis using False p select_min_from [OF ps] by simp
  qed
qed

lemma select_max_from:
  assumes "\<forall>p\<in>set posts. well_formed_post p"
  shows "select_extreme truthy py_gt posts (Some (PStr m)) =
           Inr (Some (PStr (fold max (map updated_at (filter by_student posts)) m)))"
  using assms
proof (induction posts arbitrary: m)
  case Nil
  show ?case by simp
next
  case (Cons p ps)
  from Cons.prems have "well_formed_post p" by simp
  then obtain v s where p: "getitem p ''by_student'' = Inr v"
    "getitem p ''updated_at'' = Inr (PStr s)" "by_student p = truthy v" "updated_at p = s"
    by (rule well_formed_postD)
  from Cons.prems have ps: "\<forall>p\<in>set ps. well_formed_post p" by simp
  have m: "(if m < s then s else m) = max s m" by (cases "m < s") (auto simp: max_def)
  show ?case using p by (simp add: Cons.IH [OF ps] m)
qed

lemma select_max:
  assumes "\<forall>p\<in>set posts. well_formed_post p"
  shows "select_extreme truthy py_gt posts None =
           Inr (if filter by_student posts = [] then None
                else Some (PStr (Max (set (map updated_at (filter by_student posts))))))"
  using assms
proof (induction posts)
  case Nil
  show ?case by simp
next
  case (Cons p ps)
  from Cons.prems have "well_formed_post p" by simp
  then obtain v s where p: "getitem p ''by_student'' = Inr v"
    "getitem p ''updated_at'' = Inr (PStr s)" "by_student p = truthy v" "updated_at p = s"
    by (rule well_formed_postD)
  from Cons.prems have ps: "\<forall>p\<in>set ps. well_formed_post p" by simp
  show ?case
  proof (cases "truthy v")
    case False
    then show ?thesis using p Cons.IH [OF ps] by simp
  next
    case True
    let ?xs = "map updated_at (filter by_student ps)"
    from True p have "map updated_at (filter by_student (p # ps)) = s # ?xs"
      by simp
    then have "Max (set (map updated_at (filter by_student (p # ps)))) = fold max ?xs s"
      by (simp only: Max.set_eq_fold)
    moreover from True p have "filter by_student (p # ps) \<noteq> []" by simp
    moreover from True p select_max_from [OF ps]
    have "select_extreme truthy py_gt (p # ps) None = Inr (Some (PStr (fold max ?xs s)))"
      by simp
    ultimately show ?thesis by (simp only: if_False)
  qed
qed

lemma count_since_filter:
  assumes "\<forall>p\<in>set posts. well_formed_post p"
  shows "count_since (PStr r) posts = Inr (length (filter (\<lambda>p. updated_at p \<ge> r) posts))"
  using assms
proof (induction posts)
  case Nil
  show ?case by simp
next
  case (Cons p ps)
  from Cons.prems have "well_formed_post p" by simp
  then obtain v s where p: "getitem p ''by_student'' = Inr v"
    "getitem p ''updated_at'' = Inr (PStr s)" "by_student p = truthy v" "updated_at p = s"
    by (rule well_formed_postD)
  from Cons.prems have ps: "\<forall>p\<in>set ps. well_formed_post p" by simp
  show ?case using p by (simp add: Cons.IH [OF ps])
qed

lemma div_greater:
  assumes "0 < (k::int)"
  shows "(n < d div k) = ((n + 1) * k \<le> d)"
proof
  assume "n < d div k"
  then have "n + 1 \<le> d div k" by simp
  then have "(n + 1) * k \<le> (d div k) * k" using assms by (simp add: mult_right_mono)
  also have "(d div k) * k = d - d mod k" by (simp add: minus_mod_eq_div_mult)
  also have "\<dots> \<le> d" using assms by simp
  finally show "(n + 1) * k \<le> d" .
next
  assume "(n + 1) * k \<le> d"
  then have "((n + 1) * k) div k \<le> d div k" using assms by (rule zdiv_mono1)
  then show "n < d div k" using assms by simp
qed

lemma whole_days: "(300 < (d::int) div day) = (301 * day \<le> d)"
  using div_greater [of day 300 d] by (simp add: day_def)

lemma nudge_decision_value:
  assumes "\<forall>p\<in>set posts. well_formed_post p"
    and "\<exists>p\<in>set posts. \<not> by_student p"
    and "strptime (reference_time posts) = Inr t"
  shows "nudge_decision strptime now posts
           = Inr (300 < (now - t) div day \<and> 5 < posts_since_updated posts)"
proof -
  from assms(2) have ne: "filter (\<lambda>p. \<not> by_student p) posts \<noteq> []"
    by (simp add: filter_empty_conv)
  let ?f = "first_mentor_post_time posts" and ?l = "last_student_post_time posts"
  define ls where "ls = (if filter by_student posts = [] then None
                   else Some (PStr (Max (set (map updated_at (filter by_student posts))))))"
  have m1: "select_extreme (\<lambda>b. \<not> truthy b) py_lt posts None = Inr (Some (PStr ?f))"
    using select_min [OF assms(1)] ne by simp
  have m2: "select_extreme truthy py_gt posts None = Inr ls"
    unfolding ls_def by (rule select_max [OF assms(1)])
  have l: "(case ls of None \<Rightarrow> PStr ?f | Some s \<Rightarrow> s) = PStr ?l"
    by (simp add: ls_def last_student_post_time_def)
  have ref: "(if ?f < ?l then PStr ?l else PStr ?f) = PStr (reference_time posts)"
  proof (cases "?f < ?l")
    case True
    then have "?f \<le> ?l" by (rule less_imp_le)
    then have "reference_time posts = ?l" unfolding reference_time_def by (rule max.absorb2)
    with True show ?thesis by simp
  next
    case False
    then have "?l \<le> ?f" by (simp add: not_less)
    then have "reference_time posts = ?f" unfolding reference_time_def by (rule max.absorb1)
    with False show ?thesis by simp
  qed
  show ?thesis
    unfolding nudge_decision_def m1 m2
    by (simp only: sum.case option.case l py_gt_strings ref count_since_filter [OF assms(1)]
        py_strptime_def pyval.case assms(3) posts_since_updated_def)
qed

text \<open>
  Claim C4 (as the code has it). For a discussion whose posts are well formed, with at
  least one post of the mentor, and whose reference time \<^verbatim>\<open>strptime\<close> reads as the instant
  \<open>t\<close>, the decision of \<^verbatim>\<open>nudge\<close> is to finish exactly when the whole number of days of
  \<open>now - t\<close> is more than 300 and more than 5 posts were updated at or after the reference
  time, and to nudge otherwise. The first condition is \<^verbatim>\<open>age.days > 300\<close>: it holds from
  301 days on, not from 300 days on.
\<close>

theorem nudge_decision_whole_days:
  assumes "\<forall>p\<in>set posts. well_formed_post p"
    and "\<exists>p\<in>set posts. \<not> by_student p"
    and "strptime (reference_time posts) = Inr t"
  shows "nudge_decision strptime now posts
           = Inr (300 < (now - t) div day \<and> 5 < posts_since_updated posts)
         \<and> (300 < (now - t) div day) = (301 * day \<le> now - t)"
  using nudge_decision_value [where strptime = strptime and posts = posts and t = t, OF assms]
    whole_days [of "now - t"] by simp

text \<open>The discussion \<^const>\<open>thread\<close>, 400 days and 10 days after its reference time.\<close>

lemma mentoring_post_fields [simp]:
  "well_formed_post (mentoring_post s t)" "by_student (mentoring_post s t) = s"
  "updated_at (mentoring_post s t) = t"
  by (simp_all add: mentoring_post_def well_formed_post_def by_student_def updated_at_def
      getitem_def truthy_def)

lemma thread_times:
  "first_mentor_post_time thread = ''2023-01-01T00:00:00Z''"
  "last_student_post_time thread = ''2023-01-10T00:00:00Z''"
  by (simp_all add: first_mentor_post_time_def last_student_post_time_def thread_def)

lemma thread_reference: "reference_time thread = ''2023-01-10T00:00:00Z''"
  by (simp add: reference_time_def thread_times max_def less_eq_char_def)

lemma thread_posts_since: "posts_since_updated thread = 6"
  by (simp add: posts_since_updated_def thread_reference) (simp add: thread_def less_eq_char_def)

theorem nudge_decision_whole_days_witness:
  "nudge_decision since_reference (400 * day) thread = Inr True
   \<and> nudge_decision since_reference (10 * day) thread = Inr False
   \<and> reference_time thread = ''2023-01-10T00:00:00Z''
   \<and> posts_since_updated thread = 6"
proof -
  have wf: "\<forall>p\<in>set thread. well_formed_post p" by (simp add: thread_def)
  have m: "\<exists>p\<in>set thread. \<not> by_student p" by (simp add: thread_def)
  have t: "since_reference (reference_time thread) = Inr 0"
    by (simp add: thread_reference since_reference_def)
  from nudge_decision_whole_days [where strptime = since_reference and posts = thread
        and t = 0 and now = "400 * day", OF wf m t]
    nudge_decision_whole_days [where strptime = since_reference and posts = thread
        and t = 0 and now = "10 * day", OF wf m t]
  show ?thesis by (simp add: thread_posts_since thread_reference day_def)
qed

text \<open>
  Claim C4 as stated has a discussion finished when \<open>now - referenceTime\<close> exceeds 300 days
  and more than 5 posts follow. In the discussion \<^const>\<open>thread\<close> six posts were updated at
  or after the reference time; 300 days and 12 hours after it, the decision is to nudge.
\<close>

theorem finish_threshold_counterexample:
  "nudge_decision since_reference (300 * day + day div 2) thread = Inr False
   \<and> since_reference (reference_time thread) = Inr 0
   \<and> 300 * day < (300 * day + day div 2) - 0
   \<and> 5 < posts_since_updated thread"
proof -
  have wf: "\<forall>p\<in>set thread. well_formed_post p" by (simp add: thread_def)
  have m: "\<exists>p\<in>set thread. \<not> by_student p" by (simp add: thread_def)
  have t: "since_reference (reference_time thread) = Inr 0"
    by (simp add: thread_reference since_reference_def)
  from nudge_decision_value [where strptime = since_reference and posts = thread
        and t = 0 and now = "300 * day + day div 2", OF wf m t] t
  show ?thesis by (simp add: thread_posts_since day_def)
qed


section \<open>The candidates among the old mentor discussions\<close>

lemma timedD:
  assumes "timed strptime d"
  obtains ts where "getitem d ''updated_at'' = Inr (PStr ts)"
    "strptime ts = Inr (time_of strptime d)"
  using assms
  by (auto simp: timed_def time_of_def split: sum.splits pyval.splits)

lemma post_dates_times:
  assumes "\<forall>c\<in>set cs. timed strptime c"
  shows "post_dates strptime cs = Inr (map (time_of strptime) cs)"
  using assms
proof (induction cs)
  case Nil
  show ?case by simp
next
  case (Cons c cs)
  from Cons.prems have "timed strptime c" by simp
  then obtain ts where "getitem c ''updated_at'' = Inr (PStr ts)"
    "strptime ts = Inr (time_of strptime c)" by (rule timedD)
  moreover from Cons have "post_dates strptime cs = Inr (map (time_of strptime) cs)" by simp
  ultimately show ?case by (simp add: py_strptime_def)
qed

lemma max_instant_Max:
  assumes "ds \<noteq> []"
  shows "max_instant ds = Inr (Max (set ds))"
proof -
  from assms obtain d ds' where ds: "ds = d # ds'" by (cases ds) auto
  have "Max (set (d # ds')) = fold max ds' d" by (rule Max.set_eq_fold)
  then show ?thesis unfolding ds by (simp add: max_instant_def)
qed

lemma fetch_ok:
  assumes "\<forall>n. srv n \<lparr>func = SessionGet, args = [u], kwargs = kw\<rparr> = ok_reply j"
    and "call_error SessionGet [u] kw = None"
  shows "\<exists>w'. get_json_with_retries srv [u] 0.2 kw w = (Inr j, w')"
proof -
  have "get_json_with_retries srv [u] 0.2 kw w =
          (Inr j, w @ [Attempt 1, Call \<lparr>func = SessionGet, args = [u], kwargs = kw\<rparr>, Sleep 0.2])"
    by (rule get_json_with_retries_ok [where resp = "\<lparr>retry_after = None, status_code = 200, body = Some j\<rparr>"])
       (use assms in \<open>simp_all add: ok_reply_def\<close>)
  then show ?thesis by blast
qed

lemma check_discussion_result:
  assumes t: "timed strptime d"
    and old: "time_of strptime d \<le> cutoff \<longrightarrow>
         (\<exists>u. getitem d ''uuid'' = Inr u
            \<and> (\<forall>n. srv n \<lparr>func = SessionGet,
                   args = [PStr (API @ ''/mentoring/discussions/'' @ fstr py_str u @ ''/posts'')],
                   kwargs = []\<rparr> = ok_reply (PDict [(''items'', PList (posts_of u))]))
            \<and> posts_of u \<noteq> [] \<and> (\<forall>c\<in>set (posts_of u). timed strptime c))"
  shows "\<exists>w'. check_discussion srv py_str strptime cutoff d uuids w =
           (Inr (uuids @ map uuid_of (filter (is_candidate strptime cutoff posts_of) [d])), w')"
proof -
  from t obtain ts where ts: "getitem d ''updated_at'' = Inr (PStr ts)"
    "strptime ts = Inr (time_of strptime d)" by (rule timedD)
  show ?thesis
  proof (cases "time_of strptime d \<le> cutoff")
    case False
    then have "\<not> is_candidate strptime cutoff posts_of d" by (simp add: is_candidate_def)
    with False ts show ?thesis by (simp add: check_discussion_def py_strptime_def)
  next
    case True
    with old obtain u where u: "getitem d ''uuid'' = Inr u"
      and srv: "\<forall>n. srv n \<lparr>func = SessionGet,
                   args = [PStr (API @ ''/mentoring/discussions/'' @ fstr py_str u @ ''/posts'')],
                   kwargs = []\<rparr> = ok_reply (PDict [(''items'', PList (posts_of u))])"
      and ne: "posts_of u \<noteq> []" and pt: "\<forall>c\<in>set (posts_of u). timed strptime c"
      by blast
    have "\<exists>w1. get_json_with_retries srv
            [PStr (API @ ''/mentoring/discussions/'' @ fstr py_str u @ ''/posts'')] 0.2 [] w
          = (Inr (PDict [(''items'', PList (posts_of u))]), w1)"
      by (rule fetch_ok [where srv = srv and kw = "[]" and w = w
            and j = "PDict [(''items'', PList (posts_of u))]"
            and u = "PStr (API @ ''/mentoring/discussions/'' @ fstr py_str u @ ''/posts'')",
            OF srv]) simp
    then obtain w1 where
      f: "get_json_with_retries srv
            [PStr (API @ ''/mentoring/discussions/'' @ fstr py_str u @ ''/posts'')] 0.2 [] w
          = (Inr (PDict [(''items'', PList (posts_of u))]), w1)"
      by blast
    have uo: "uuid_of d = u" using u by (simp add: uuid_of_def)
    have pd: "post_dates strptime (posts_of u) = Inr (map (time_of strptime) (posts_of u))"
      using pt by (rule post_dates_times)
    have mx: "max_instant (map (time_of strptime) (posts_of u))
                = Inr (Max (set (map (time_of strptime) (posts_of u))))"
      using ne by (intro max_instant_Max) simp
    have gi: "getitem (PDict [(''items'', PList (posts_of u))]) ''items'' = Inr (PList (posts_of u))"
      by (simp add: getitem_def)
    have pi: "py_iter (PList (posts_of u)) = Inr (posts_of u)" by (simp add: py_iter_def)
    have "check_discussion srv py_str strptime cutoff d uuids w =
           (Inr (if Max (set (map (time_of strptime) (posts_of u))) \<le> cutoff
                 then uuids @ [u] else uuids), w1)"
      using True ts u f pd mx gi pi
      by (simp add: check_discussion_def py_strptime_def not_le)
    also have "(if Max (set (map (time_of strptime) (posts_of u))) \<le> cutoff
                 then uuids @ [u] else uuids)
               = uuids @ map uuid_of (filter (is_candidate strptime cutoff posts_of) [d])"
      using True by (simp add: is_candidate_def uo)
    finally show ?thesis by blast
  qed
qed

lemma check_discussions_result:
  assumes "\<forall>d\<in>set ds. timed strptime d
         \<and> (time_of strptime d \<le> cutoff \<longrightarrow>
         (\<exists>u. getitem d ''uuid'' = Inr u
            \<and> (\<forall>n. srv n \<lparr>func = SessionGet,
                   args = [PStr (API @ ''/mentoring/discussions/'' @ fstr py_str u @ ''/posts'')],
                   kwargs = []\<rparr> = ok_reply (PDict [(''items'', PList (posts_of u))]))
            \<and> posts_of u \<noteq> [] \<and> (\<forall>c\<in>set (posts_of u). timed strptime c)))"
  shows "\<exists>w'. for_each (check_discussion srv py_str strptime cutoff) ds uuids w =
           (Inr (uuids @ map uuid_of (filter (is_candidate strptime cutoff posts_of) ds)), w')"
  using assms
proof (induction ds arbitrary: uuids w)
  case Nil
  show ?case by simp
next
  case (Cons d ds)
  from Cons.prems have t: "timed strptime d"
    and old: "time_of strptime d \<le> cutoff \<longrightarrow>
         (\<exists>u. getitem d ''uuid'' = Inr u
            \<and> (\<forall>n. srv n \<lparr>func = SessionGet,
                   args = [PStr (API @ ''/mentoring/discussions/'' @ fstr py_str u @ ''/posts'')],
                   kwargs = []\<rparr> = ok_reply (PDict [(''items'', PList (posts_of u))]))
            \<and> posts_of u \<noteq> [] \<and> (\<forall>c\<in>set (posts_of u). timed strptime c))"
    by simp_all
  from check_discussion_result [where uuids = uuids and w = w, OF t old] obtain w1 where
    one: "check_discussion srv py_str strptime cutoff d uuids w =
           (Inr (uuids @ map uuid_of (filter (is_candidate strptime cutoff posts_of) [d])), w1)"
    by blast
  from Cons.prems have rest: "\<forall>d\<in>set ds. timed strptime d
         \<and> (time_of strptime d \<le> cutoff \<longrightarrow>
         (\<exists>u. getitem d ''uuid'' = Inr u
            \<and> (\<forall>n. srv n \<lparr>func = SessionGet,
                   args = [PStr (API @ ''/mentoring/discussions/'' @ fstr py_str u @ ''/posts'')],
                   kwargs = []\<rparr> = ok_reply (PDict [(''items'', PList (posts_of u))]))
            \<and> posts_of u \<noteq> [] \<and> (\<forall>c\<in>set (posts_of u). timed strptime c)))"
    by simp
  from Cons.IH [OF rest,
      of "uuids @ map uuid_of (filter (is_candidate strptime cutoff posts_of) [d])" w1]
  obtain w2 where
    "for_each (check_discussion srv py_str strptime cutoff) ds
       (uuids @ map uuid_of (filter (is_candidate strptime cutoff posts_of) [d])) w1 =
     (Inr ((uuids @ map uuid_of (filter (is_candidate strptime cutoff posts_of) [d]))
            @ map uuid_of (filter (is_candidate strptime cutoff posts_of) ds)), w2)"
    by blast
  with one show ?case by (intro exI [of _ w2]) simp
qed

lemma update_fresh:
  "k \<notin> set (map fst base) \<Longrightarrow> AList.update k v base = base @ [(k, v)]"
  by (induction base) auto

lemma update_last:
  "k \<notin> set (map fst base) \<Longrightarrow> AList.update k v (base @ [(k, j)]) = base @ [(k, v)]"
  by (induction base) auto

lemma check_page_result:
  assumes srv: "\<forall>n. srv n \<lparr>func = SessionGet, args = [PStr (API @ ''/mentoring/discussions'')],
                  kwargs = [(''params'', PDict (base @ [(''page'', PInt k)]))]\<rparr> = ok_reply doc"
    and doc: "getitem doc ''results'' = Inr (PList ds)"
    and base: "''page'' \<notin> set (map fst base)"
    and ps: "ps = base \<or> (\<exists>j. ps = base @ [(''page'', PInt j)])"
    and ds: "\<forall>d\<in>set ds. timed strptime d
         \<and> (time_of strptime d \<le> cutoff \<longrightarrow>
         (\<exists>u. getitem d ''uuid'' = Inr u
            \<and> (\<forall>n. srv n \<lparr>func = SessionGet,
                   args = [PStr (API @ ''/mentoring/discussions/'' @ fstr py_str u @ ''/posts'')],
                   kwargs = []\<rparr> = ok_reply (PDict [(''items'', PList (posts_of u))]))
            \<and> posts_of u \<noteq> [] \<and> (\<forall>c\<in>set (posts_of u). timed strptime c)))"
  shows "\<exists>w'. check_page srv py_str strptime cutoff k (ps, uuids) w =
           (Inr (base @ [(''page'', PInt k)],
                 uuids @ map uuid_of (filter (is_candidate strptime cutoff posts_of) ds)), w')"
proof -
  have up: "AList.update ''page'' (PInt k) ps = base @ [(''page'', PInt k)]"
    using ps base by (auto simp: update_fresh update_last)
  have "\<exists>w1. get_json_with_retries srv [PStr (API @ ''/mentoring/discussions'')] 0.2
          [(''params'', PDict (base @ [(''page'', PInt k)]))] w = (Inr doc, w1)"
    by (rule fetch_ok [where srv = srv and w = w and j = doc
          and kw = "[(''params'', PDict (base @ [(''page'', PInt k)]))]"
          and u = "PStr (API @ ''/mentoring/discussions'')", OF srv]) simp
  then obtain w1 where
    f: "get_json_with_retries srv [PStr (API @ ''/mentoring/discussions'')] 0.2
          [(''params'', PDict (base @ [(''page'', PInt k)]))] w = (Inr doc, w1)"
    by blast
  from check_discussions_result [where uuids = uuids and w = w1, OF ds] obtain w2 where
    l: "for_each (check_discussion srv py_str strptime cutoff) ds uuids w1 =
           (Inr (uuids @ map uuid_of (filter (is_candidate strptime cutoff posts_of) ds)), w2)"
    by blast
  have pi: "py_iter (PList ds) = Inr ds" by (simp add: py_iter_def)
  show ?thesis
    using f l doc pi by (intro exI [of _ w2]) (simp add: check_page_def up)
qed

lemma check_pages_result:
  assumes pages: "\<forall>k\<in>set ks.
           (\<forall>n. srv n \<lparr>func = SessionGet, args = [PStr (API @ ''/mentoring/discussions'')],
                  kwargs = [(''params'', PDict (base @ [(''page'', PInt k)]))]\<rparr> = ok_reply (doc k))
           \<and> getitem (doc k) ''results'' = Inr (PList (pages k))"
    and ds: "\<forall>k\<in>set ks. \<forall>d\<in>set (pages k). timed strptime d
         \<and> (time_of strptime d \<le> cutoff \<longrightarrow>
         (\<exists>u. getitem d ''uuid'' = Inr u
            \<and> (\<forall>n. srv n \<lparr>func = SessionGet,
                   args = [PStr (API @ ''/mentoring/discussions/'' @ fstr py_str u @ ''/posts'')],
                   kwargs = []\<rparr> = ok_reply (PDict [(''items'', PList (posts_of u))]))
            \<and> posts_of u \<noteq> [] \<and> (\<forall>c\<in>set (posts_of u). timed strptime c)))"
    and base: "''page'' \<notin> set (map fst base)"
    and ps: "ps = base \<or> (\<exists>j. ps = base @ [(''page'', PInt j)])"
  shows "\<exists>w' ps'. for_each (check_page srv py_str strptime cutoff) ks (ps, uuids) w =
           (Inr (ps', uuids @ map uuid_of (filter (is_candidate strptime cutoff posts_of)
                                              (concat (map pages ks)))), w')"
  using pages ds ps
proof (induction ks arbitrary: ps uuids w)
  case Nil
  show ?case by simp
next
  case (Cons k ks)
  from Cons.prems(1) have srv: "\<forall>n. srv n \<lparr>func = SessionGet, args = [PStr (API @ ''/mentoring/discussions'')],
                  kwargs = [(''params'', PDict (base @ [(''page'', PInt k)]))]\<rparr> = ok_reply (doc k)"
    and doc: "getitem (doc k) ''results'' = Inr (PList (pages k))" by simp_all
  from Cons.prems(2) have dk: "\<forall>d\<in>set (pages k). timed strptime d
         \<and> (time_of strptime d \<le> cutoff \<longrightarrow>
         (\<exists>u. getitem d ''uuid'' = Inr u
            \<and> (\<forall>n. srv n \<lparr>func = SessionGet,
                   args = [PStr (API @ ''/mentoring/discussions/'' @ fstr py_str u @ ''/posts'')],
                   kwargs = []\<rparr> = ok_reply (PDict [(''items'', PList (posts_of u))]))
            \<and> posts_of u \<noteq> [] \<and> (\<forall>c\<in>set (posts_of u). timed strptime c)))"
    by simp
  from check_page_result [where uuids = uuids and w = w, OF srv doc base Cons.prems(3) dk]
  obtain w1 where one: "check_page srv py_str strptime cutoff k (ps, uuids) w =
           (Inr (base @ [(''page'', PInt k)],
                 uuids @ map uuid_of (filter (is_candidate strptime cutoff posts_of) (pages k))), w1)"
    by blast
  from Cons.prems(1) have p': "\<forall>k\<in>set ks.
           (\<forall>n. srv n \<lparr>func = SessionGet, args = [PStr (API @ ''/mentoring/discussions'')],
                  kwargs = [(''params'', PDict (base @ [(''page'', PInt k)]))]\<rparr> = ok_reply (doc k))
           \<and> getitem (doc k) ''results'' = Inr (PList (pages k))" by simp
  from Cons.prems(2) have d': "\<forall>k\<in>set ks. \<forall>d\<in>set (pages k). timed strptime d
         \<and> (time_of strptime d \<le> cutoff \<longrightarrow>
         (\<exists>u. getitem d ''uuid'' = Inr u
            \<and> (\<forall>n. srv n \<lparr>func = SessionGet,
                   args = [PStr (API @ ''/mentoring/discussions/'' @ fstr py_str u @ ''/posts'')],
                   kwargs = []\<rparr> = ok_reply (PDict [(''items'', PList (posts_of u))]))
            \<and> posts_of u \<noteq> [] \<and> (\<forall>c\<in>set (posts_of u). timed strptime c)))" by simp
  have inv: "base @ [(''page'', PInt k)] = base \<or> (\<exists>j. base @ [(''page'', PInt k)] = base @ [(''page'', PInt j)])"
    by blast
  from Cons.IH [OF p' d' inv,
      of "uuids @ map uuid_of (filter (is_candidate strptime cutoff posts_of) (pages k))" w1]
  obtain w2 ps' where
    "for_each (check_page srv py_str strptime cutoff) ks
       (base @ [(''page'', PInt k)],
        uuids @ map uuid_of (filter (is_candidate strptime cutoff posts_of) (pages k))) w1 =
     (Inr (ps', (uuids @ map uuid_of (filter (is_candidate strptime cutoff posts_of) (pages k)))
            @ map uuid_of (filter (is_candidate strptime cutoff posts_of) (concat (map pages ks)))), w2)"
    by blast
  with one show ?case by (intro exI [of _ w2] exI [of _ ps']) simp
qed


text \<open>The server \<^const>\<open>mentoring_api\<close>, 70 days after the first timestamp, for an age of 30 days.\<close>

lemma discussion_fields [simp]:
  "getitem (discussion u t) ''uuid'' = Inr (PStr u)"
  "getitem (discussion u t) ''updated_at'' = Inr (PStr t)"
  "uuid_of (discussion u t) = PStr u"
  by (simp_all add: discussion_def getitem_def uuid_of_def)

lemma since_2024_times [simp]:
  "timed since_2024 (discussion u ''2024-01-01T00:00:00Z'')"
  "timed since_2024 (discussion u ''2024-03-01T00:00:00Z'')"
  "time_of since_2024 (discussion u ''2024-01-01T00:00:00Z'') = 0"
  "time_of since_2024 (discussion u ''2024-03-01T00:00:00Z'') = 60 * day"
  "timed since_2024 (PDict [(''updated_at'', PStr ''2024-01-01T00:00:00Z'')])"
  "timed since_2024 (PDict [(''updated_at'', PStr ''2024-03-01T00:00:00Z'')])"
  "time_of since_2024 (PDict [(''updated_at'', PStr ''2024-01-01T00:00:00Z'')]) = 0"
  "time_of since_2024 (PDict [(''updated_at'', PStr ''2024-03-01T00:00:00Z'')]) = 60 * day"
  by (simp_all add: timed_def time_of_def since_2024_def discussion_def getitem_def)




end
